theory Spec2Isabelle
  imports Complex_Main "HOL-Library.Sublist"
begin

section \<open>Event chatbot API: knowledge base, tiered lookup, query log\<close>

text \<open>
  The server in \<^verbatim>\<open>src/event-bot/server.js\<close> is an Express application over two
  MongoDB collections, \<^verbatim>\<open>know_base\<close> and \<^verbatim>\<open>query_logs\<close>. Each route handler is
  embedded as a function from the store (and the request) to the response and the store
  afterwards. Strings are byte lists; letter case is the ASCII one.
\<close>

subsection \<open>Strings of the platform\<close>

definition toLowerCase_char :: "char \<Rightarrow> char" where
  "toLowerCase_char c =
     (case map_of (zip ''ABCDEFGHIJKLMNOPQRSTUVWXYZ'' ''abcdefghijklmnopqrstuvwxyz'') c of
        Some l \<Rightarrow> l
      | None \<Rightarrow> c)"

definition toUpperCase_char :: "char \<Rightarrow> char" where
  "toUpperCase_char c =
     (case map_of (zip ''abcdefghijklmnopqrstuvwxyz'' ''ABCDEFGHIJKLMNOPQRSTUVWXYZ'') c of
        Some u \<Rightarrow> u
      | None \<Rightarrow> c)"

definition toLowerCase :: "string \<Rightarrow> string" where
  "toLowerCase s = map toLowerCase_char s"

definition is_space :: "char \<Rightarrow> bool" where
  "is_space c = (c \<in> set [CHR 0x09, CHR 0x0A, CHR 0x0B, CHR 0x0C, CHR 0x0D, CHR 0x20])"

definition trim :: "string \<Rightarrow> string" where
  "trim s = rev (dropWhile is_space (rev (dropWhile is_space s)))"

text \<open>\<^verbatim>\<open>s.split(",")\<close>: the pieces between the commas, at least one piece.\<close>

fun split_comma :: "string \<Rightarrow> string list" where
  "split_comma [] = [[]]"
| "split_comma (c # cs) =
     (if c = CHR '','' then [] # split_comma cs
      else (case split_comma cs of
              [] \<Rightarrow> [[c]]
            | p # ps \<Rightarrow> (c # p) # ps))"

subsection \<open>Regular expressions of the platform\<close>

text \<open>
  \<^verbatim>\<open>new RegExp(source, "i")\<close> is the platform's, not the repository's. The model
  covers the fragment of the pattern grammar made of pattern characters, escaped
  punctuation, \<^verbatim>\<open>.\<close>, \<^verbatim>\<open>^\<close>, \<^verbatim>\<open>$\<close>, the quantifiers \<^verbatim>\<open>*\<close>, \<^verbatim>\<open>+\<close>, \<^verbatim>\<open>?\<close> (greedy or
  lazy), alternation and groups. Character classes, counted repetition, look-around,
  and escapes of letters and digits are outside it: for them the constructor answers
  \<open>NotModelled\<close>, which is no statement about the platform.
\<close>

datatype rx =
    Empty
  | Chr char
  | Dot
  | Bol
  | Eol
  | Seq rx rx
  | Alt rx rx
  | Star rx
  | Plus rx
  | Opt rx

datatype tok =
    TChar char | TDot | TBol | TEol | TStar | TPlus | TQuest | TBar | TOpen | TClose

datatype 'a compiled = SyntaxError | NotModelled | Compiled 'a

definition backslash :: char where
  "backslash = CHR 0x5C"

definition is_alnum :: "char \<Rightarrow> bool" where
  "is_alnum c =
     (c \<in> set ''ABCDEFGHIJKLMNOPQRSTUVWXYZabcdefghijklmnopqrstuvwxyz0123456789'')"

definition push :: "tok \<Rightarrow> tok list compiled \<Rightarrow> tok list compiled" where
  "push t r = (case r of Compiled ts \<Rightarrow> Compiled (t # ts) | e \<Rightarrow> e)"

definition tok_of :: "char \<Rightarrow> tok" where
  "tok_of c =
     (if c = CHR ''.'' then TDot
      else if c = CHR ''^'' then TBol
      else if c = CHR ''$'' then TEol
      else if c = CHR ''*'' then TStar
      else if c = CHR ''+'' then TPlus
      else if c = CHR ''?'' then TQuest
      else if c = CHR ''|'' then TBar
      else if c = CHR '')'' then TClose
      else TChar c)"

fun tokens :: "string \<Rightarrow> tok list compiled" where
  "tokens [] = Compiled []"
| "tokens (c # cs) =
     (if c = backslash then
        (case cs of
           [] \<Rightarrow> SyntaxError
         | d # ds \<Rightarrow> if is_alnum d then NotModelled else push (TChar d) (tokens ds))
      else if c = CHR ''('' then
        (case cs of
           [] \<Rightarrow> push TOpen (tokens cs)
         | q # r \<Rightarrow>
             if q = CHR ''?'' then
               (case r of
                  [] \<Rightarrow> SyntaxError
                | k # r' \<Rightarrow> if k = CHR '':'' then push TOpen (tokens r') else NotModelled)
             else push TOpen (tokens cs))
      else if c = CHR ''['' \<or> c = CHR ''{'' then NotModelled
      else push (tok_of c) (tokens cs))"

text \<open>Whether the term before the cursor can take a quantifier, or a lazy mark.\<close>

datatype qst = NoAtom | Atom | Quantified

fun mkSeq :: "rx list \<Rightarrow> rx" where
  "mkSeq [] = Empty"
| "mkSeq (r # rs) = Seq r (mkSeq rs)"

fun mkAlt :: "rx list \<Rightarrow> rx" where
  "mkAlt [] = Empty"
| "mkAlt [r] = r"
| "mkAlt (r # rs) = Alt r (mkAlt rs)"

text \<open>
  One pass over the tokens. \<open>st\<close> holds the enclosing groups, each with its finished
  alternatives and the terms of its open alternative (both newest first); \<open>alts\<close>
  and \<open>cur\<close> are those of the innermost group.
\<close>

fun parse :: "(rx list \<times> rx list) list \<Rightarrow> rx list \<Rightarrow> rx list \<Rightarrow> qst \<Rightarrow> tok list \<Rightarrow> rx compiled"
  where
  "parse st alts cur q [] =
     (if st = [] then Compiled (mkAlt (rev (mkSeq (rev cur) # alts))) else SyntaxError)"
| "parse st alts cur q (TChar c # ts) = parse st alts (Chr c # cur) Atom ts"
| "parse st alts cur q (TDot # ts) = parse st alts (Dot # cur) Atom ts"
| "parse st alts cur q (TBol # ts) = parse st alts (Bol # cur) NoAtom ts"
| "parse st alts cur q (TEol # ts) = parse st alts (Eol # cur) NoAtom ts"
| "parse st alts cur q (TStar # ts) =
     (case (q, cur) of
        (Atom, r # cur') \<Rightarrow> parse st alts (Star r # cur') Quantified ts
      | _ \<Rightarrow> SyntaxError)"
| "parse st alts cur q (TPlus # ts) =
     (case (q, cur) of
        (Atom, r # cur') \<Rightarrow> parse st alts (Plus r # cur') Quantified ts
      | _ \<Rightarrow> SyntaxError)"
| "parse st alts cur q (TQuest # ts) =
     (case (q, cur) of
        (Atom, r # cur') \<Rightarrow> parse st alts (Opt r # cur') Quantified ts
      | (Quantified, _) \<Rightarrow> parse st alts cur NoAtom ts
      | _ \<Rightarrow> SyntaxError)"
| "parse st alts cur q (TBar # ts) = parse st (mkSeq (rev cur) # alts) [] NoAtom ts"
| "parse st alts cur q (TOpen # ts) = parse ((alts, cur) # st) [] [] NoAtom ts"
| "parse st alts cur q (TClose # ts) =
     (case st of
        [] \<Rightarrow> SyntaxError
      | (alts0, cur0) # st' \<Rightarrow>
          parse st' alts0 (mkAlt (rev (mkSeq (rev cur) # alts)) # cur0) Atom ts)"

record regexp =
  rx_of :: rx
  ignoreCase :: bool

definition RegExp :: "string \<Rightarrow> string \<Rightarrow> regexp compiled" where
  "RegExp pattern flags =
     (if flags = ''i'' \<or> flags = [] then
        (case tokens pattern of
           Compiled ts \<Rightarrow>
             (case parse [] [] [] NoAtom ts of
                Compiled r \<Rightarrow> Compiled \<lparr>rx_of = r, ignoreCase = (flags = ''i'')\<rparr>
              | SyntaxError \<Rightarrow> SyntaxError
              | NotModelled \<Rightarrow> NotModelled)
         | SyntaxError \<Rightarrow> SyntaxError
         | NotModelled \<Rightarrow> NotModelled)
      else NotModelled)"

definition Canonicalize :: "bool \<Rightarrow> char \<Rightarrow> char" where
  "Canonicalize ic c = (if ic then toUpperCase_char c else c)"

definition line_terminator :: "char \<Rightarrow> bool" where
  "line_terminator c = (c = CHR 0x0A \<or> c = CHR 0x0D)"

text \<open>
  Further rounds of a starred term: each round has to consume input, so \<open>n\<close> rounds
  are enough when \<open>n\<close> characters are left.
\<close>

fun rounds :: "(nat \<Rightarrow> nat list) \<Rightarrow> nat \<Rightarrow> nat \<Rightarrow> nat list" where
  "rounds f 0 i = [i]"
| "rounds f (Suc n) i = i # concat (map (rounds f n) (filter (\<lambda>j. i < j) (f i)))"

text \<open>The positions at which a match of the term that starts at position \<open>i\<close> of \<open>s\<close> may end.\<close>

primrec ends :: "bool \<Rightarrow> rx \<Rightarrow> string \<Rightarrow> nat \<Rightarrow> nat list" where
  "ends ic Empty s = (\<lambda>i. [i])"
| "ends ic (Chr c) s =
     (\<lambda>i. if i < length s \<and> Canonicalize ic (s ! i) = Canonicalize ic c then [Suc i] else [])"
| "ends ic Dot s = (\<lambda>i. if i < length s \<and> \<not> line_terminator (s ! i) then [Suc i] else [])"
| "ends ic Bol s = (\<lambda>i. if i = 0 then [i] else [])"
| "ends ic Eol s = (\<lambda>i. if i = length s then [i] else [])"
| "ends ic (Seq a b) s = (\<lambda>i. concat (map (ends ic b s) (ends ic a s i)))"
| "ends ic (Alt a b) s = (\<lambda>i. ends ic a s i @ ends ic b s i)"
| "ends ic (Star a) s = (\<lambda>i. rounds (ends ic a s) (length s - i) i)"
| "ends ic (Plus a) s =
     (\<lambda>i. concat (map (\<lambda>j. rounds (ends ic a s) (length s - j) j) (ends ic a s i)))"
| "ends ic (Opt a) s = (\<lambda>i. i # ends ic a s i)"

text \<open>\<^verbatim>\<open>rx.test(s)\<close>: some match starts somewhere in \<open>s\<close>.\<close>

definition rx_test :: "regexp \<Rightarrow> string \<Rightarrow> bool" where
  "rx_test r s = list_ex (\<lambda>i. ends (ignoreCase r) (rx_of r) s i \<noteq> []) [0..<Suc (length s)]"

subsection \<open>The two collections\<close>

text \<open>
  \<^verbatim>\<open>kbSchema\<close> and \<^verbatim>\<open>logSchema\<close>. Object identifiers and timestamps are natural
  numbers; a field that may be absent or \<^verbatim>\<open>null\<close> is an option.
\<close>

record kb_doc =
  kb_id :: nat
  question :: string
  answer :: string
  tags :: "string list"
  source :: string
  createdAt :: nat

datatype tier = Text | Regex | Tag | NoTier

record log_doc =
  log_id :: nat
  query :: string
  matchedDocId :: "nat option"
  score :: "rat option"
  matchedBy :: tier
  loggedAt :: nat

record store =
  know_base :: "kb_doc list"
  query_logs :: "log_doc list"
  next_oid :: nat

text \<open>A lean document as a find returns it; the text search adds its score.\<close>

record hit =
  hit_doc :: kb_doc
  hit_score :: "rat option"

text \<open>
  Every call of the driver may reject. \<open>F\<close> tells, for each call a handler can make,
  whether it rejects and with which message.
\<close>

datatype op = TextFind | RegexFind | TagFind | KbCreate | LogCreate | LogAggregate

type_synonym faults = "op \<Rightarrow> string option"

text \<open>
  The relevance of a document for a search string under the text index
  \<^verbatim>\<open>TextIdx_QA_Tags\<close>, \<open>None\<close> when the document does not match. It is the store's,
  and a parameter here.
\<close>

type_synonym textScore = "string \<Rightarrow> kb_doc \<Rightarrow> rat option"

definition await :: "string + 'a \<Rightarrow> ('a \<Rightarrow> string + 'b) \<Rightarrow> string + 'b" where
  "await p k = (case p of Inl e \<Rightarrow> Inl e | Inr v \<Rightarrow> k v)"

definition lean :: "kb_doc \<Rightarrow> hit" where
  "lean d = \<lparr>hit_doc = d, hit_score = None\<rparr>"

subsection \<open>Helpers\<close>

definition scored :: "textScore \<Rightarrow> string \<Rightarrow> kb_doc list \<Rightarrow> (kb_doc \<times> rat) list" where
  "scored ts q ds = List.map_filter (\<lambda>d. map_option (\<lambda>s. (d, s)) (ts q d)) ds"

definition textSearch :: "textScore \<Rightarrow> faults \<Rightarrow> store \<Rightarrow> string \<Rightarrow> string + hit list" where
  "textSearch ts F db qry =
     (case F TextFind of
        Some e \<Rightarrow> Inl e
      | None \<Rightarrow>
          Inr (map (\<lambda>(d, s). \<lparr>hit_doc = d, hit_score = Some s\<rparr>)
                 (take 1 (sort_key (\<lambda>(d, s). - s) (scored ts qry (know_base db))))))"

definition escapeRegExp :: "string \<Rightarrow> string" where
  "escapeRegExp qry =
     concat (map (\<lambda>c. if c \<in> set (''.*+?^${}()|[]'' @ [backslash]) then [backslash, c] else [c])
               qry)"

text \<open>
  The pattern handed to the constructor is always the escaped query, which always
  compiles (lemma \<open>RegExp_escapeRegExp\<close> below); the two other branches are there
  because the constructor can take them on other patterns.
\<close>

definition regexFallback :: "faults \<Rightarrow> store \<Rightarrow> string \<Rightarrow> string + hit list" where
  "regexFallback F db qry =
     (let safe = escapeRegExp qry in
      case RegExp safe ''i'' of
        SyntaxError \<Rightarrow> Inl ''Invalid regular expression''
      | NotModelled \<Rightarrow> Inl ''pattern outside the modelled fragment''
      | Compiled rx \<Rightarrow>
          (case F RegexFind of
             Some e \<Rightarrow> Inl e
           | None \<Rightarrow>
               Inr (map lean
                      (take 1 (filter (\<lambda>d. rx_test rx (question d) \<or> rx_test rx (answer d))
                                 (know_base db))))))"

text \<open>\<^verbatim>\<open>{ tags: { $in: wanted } }\<close>: some tag of the document is one of the wanted.\<close>

definition tags_in :: "string list \<Rightarrow> kb_doc \<Rightarrow> bool" where
  "tags_in wanted d = list_ex (\<lambda>t. t \<in> set wanted) (tags d)"

definition tagFilter :: "faults \<Rightarrow> store \<Rightarrow> string list \<Rightarrow> string + hit list" where
  "tagFilter F db tgs =
     (if tgs = [] then Inr []
      else (case F TagFind of
              Some e \<Rightarrow> Inl e
            | None \<Rightarrow>
                Inr (map lean (take 1 (filter (tags_in (map toLowerCase tgs)) (know_base db))))))"

definition KB_create ::
  "faults \<Rightarrow> nat \<Rightarrow> store \<Rightarrow> string \<Rightarrow> string \<Rightarrow> string list \<Rightarrow> string \<Rightarrow> string + kb_doc \<times> store"
  where
  "KB_create F now db q a tgs src =
     (if q = [] \<or> a = [] then Inl ''KB validation failed''
      else (case F KbCreate of
              Some e \<Rightarrow> Inl e
            | None \<Rightarrow>
                (let doc = \<lparr>kb_id = next_oid db, question = q, answer = a, tags = tgs,
                              source = src, createdAt = now\<rparr>
                 in Inr (doc, db\<lparr>know_base := know_base db @ [doc],
                                  next_oid := Suc (next_oid db)\<rparr>))))"

definition Log_create ::
  "faults \<Rightarrow> nat \<Rightarrow> store \<Rightarrow> string \<Rightarrow> nat option \<Rightarrow> rat option \<Rightarrow> tier \<Rightarrow> string + store"
  where
  "Log_create F now db q docId sc by =
     (case F LogCreate of
        Some e \<Rightarrow> Inl e
      | None \<Rightarrow>
          Inr (db\<lparr>query_logs := query_logs db @
                     [\<lparr>log_id = next_oid db, query = q, matchedDocId = docId, score = sc,
                       matchedBy = by, loggedAt = now\<rparr>],
                   next_oid := Suc (next_oid db)\<rparr>))"

record group =
  g_id :: string
  g_count :: nat

text \<open>
  The pipeline \<^verbatim>\<open>$group\<close> by query, \<^verbatim>\<open>$sort\<close> by count descending, \<^verbatim>\<open>$limit\<close> 10.
  The store leaves the order of groups with equal counts open; the model takes one.
\<close>

definition Log_aggregate :: "faults \<Rightarrow> store \<Rightarrow> string + group list" where
  "Log_aggregate F db =
     (case F LogAggregate of
        Some e \<Rightarrow> Inl e
      | None \<Rightarrow>
          (let qs = map query (query_logs db) in
           Inr (take 10 (sort_key (\<lambda>g. - int (g_count g))
                           (map (\<lambda>q. \<lparr>g_id = q, g_count = count_list qs q\<rparr>) (remdups qs))))))"

subsection \<open>Routes\<close>

datatype json =
    ErrorBody string
  | DocBody kb_doc
  | SearchBody string "string list" "hit list"
  | ChatMiss string tier
  | ChatHit string string "string list" tier "rat option"
  | GroupsBody "group list"

record response =
  status :: nat
  body :: json

record kb_req =
  kb_question :: "string option"
  kb_answer :: "string option"
  kb_tags :: "string list option"
  kb_source :: "string option"

record chat_req =
  chat_query :: "string option"
  chat_tags :: "string list option"

definition falsy :: "string option \<Rightarrow> bool" where
  "falsy v = (case v of None \<Rightarrow> True | Some s \<Rightarrow> s = [])"

definition or_default :: "'a \<Rightarrow> 'a option \<Rightarrow> 'a" where
  "or_default d v = (case v of None \<Rightarrow> d | Some x \<Rightarrow> x)"

definition internal_error :: "string \<Rightarrow> response" where
  "internal_error e = \<lparr>status = 500, body = ErrorBody e\<rparr>"

definition ok :: "json \<Rightarrow> response" where
  "ok j = \<lparr>status = 200, body = j\<rparr>"

definition post_kb :: "faults \<Rightarrow> nat \<Rightarrow> store \<Rightarrow> kb_req \<Rightarrow> response \<times> store" where
  "post_kb F now db req =
     (let tgs = or_default [] (kb_tags req);
          src = or_default ''user'' (kb_source req)
      in if falsy (kb_question req) \<or> falsy (kb_answer req)
         then (\<lparr>status = 400, body = ErrorBody ''question & answer required''\<rparr>, db)
         else (case KB_create F now db (or_default [] (kb_question req))
                      (or_default [] (kb_answer req)) (map toLowerCase tgs) src of
                 Inl e \<Rightarrow> (internal_error e, db)
               | Inr (doc, db') \<Rightarrow> (\<lparr>status = 201, body = DocBody doc\<rparr>, db')))"

definition tag_list :: "string option \<Rightarrow> string list" where
  "tag_list v =
     (if falsy v then []
      else map (\<lambda>t. toLowerCase (trim t)) (split_comma (or_default [] v)))"

definition get_kb_search ::
  "textScore \<Rightarrow> faults \<Rightarrow> store \<Rightarrow> string option \<Rightarrow> string option \<Rightarrow> response \<times> store" where
  "get_kb_search ts F db q_param tags_param =
     (let q = or_default [] q_param;
          tagList = tag_list tags_param
      in case
           await (if q \<noteq> [] then textSearch ts F db q else Inr []) (\<lambda>results.
           await (if results = [] \<and> q \<noteq> [] then regexFallback F db q else Inr results) (\<lambda>results.
           await (if results = [] \<and> tagList \<noteq> [] then tagFilter F db tagList else Inr results)
             (\<lambda>results. Inr (ok (SearchBody q tagList results)))))
         of
           Inl e \<Rightarrow> (internal_error e, db)
         | Inr r \<Rightarrow> (r, db))"

definition fallback_message :: string where
  "fallback_message = ''Sorry, I don'' @ [CHR 0xE2, CHR 0x80, CHR 0x99] @ ''t know yet.''"

definition post_chat ::
  "textScore \<Rightarrow> faults \<Rightarrow> nat \<Rightarrow> store \<Rightarrow> chat_req \<Rightarrow> response \<times> store" where
  "post_chat ts F now db req =
     (let qry = or_default [] (chat_query req);
          tgs = or_default [] (chat_tags req)
      in case
           await (if qry \<noteq> [] then
                    await (textSearch ts F db qry) (\<lambda>textResults.
                      case textResults of
                        [] \<Rightarrow> Inr (None, NoTier, None)
                      | t # _ \<Rightarrow> Inr (Some t, Text, hit_score t))
                  else Inr (None, NoTier, None)) (\<lambda>(top, by, sc).
           await (if top = None \<and> qry \<noteq> [] then
                    await (regexFallback F db qry) (\<lambda>rx.
                      case rx of
                        [] \<Rightarrow> Inr (top, by)
                      | t # _ \<Rightarrow> Inr (Some t, Regex))
                  else Inr (top, by)) (\<lambda>(top, by).
           await (if top = None \<and> tgs \<noteq> [] then
                    await (tagFilter F db tgs) (\<lambda>tg.
                      case tg of
                        [] \<Rightarrow> Inr (top, by)
                      | t # _ \<Rightarrow> Inr (Some t, Tag))
                  else Inr (top, by)) (\<lambda>(top, by).
           await (Log_create F now db qry (map_option (\<lambda>t. kb_id (hit_doc t)) top)
                    (if sc = Some 0 then None else sc) by) (\<lambda>db'.
             case top of
               None \<Rightarrow> Inr (ok (ChatMiss fallback_message by), db')
             | Some t \<Rightarrow>
                 Inr (ok (ChatHit (answer (hit_doc t)) (source (hit_doc t)) (tags (hit_doc t))
                            by sc), db')))))
         of
           Inl e \<Rightarrow> (internal_error e, db)
         | Inr r \<Rightarrow> r)"

definition get_top_queries :: "faults \<Rightarrow> store \<Rightarrow> response \<times> store" where
  "get_top_queries F db =
     (case Log_aggregate F db of
        Inl e \<Rightarrow> (internal_error e, db)
      | Inr agg \<Rightarrow> (ok (GroupsBody agg), db))"

subsection \<open>Auxiliary notions\<close>

text \<open>
  Following the spec's words for the regex tier: the query occurs in the text as a
  contiguous substring, letter case ignored.
\<close>

definition contains_ignoring_case :: "string \<Rightarrow> string \<Rightarrow> bool" where
  "contains_ignoring_case q s = sublist (map toUpperCase_char q) (map toUpperCase_char s)"

text \<open>
  The end of \<^verbatim>\<open>/chat\<close> once the tiers have settled on a selection: the log write,
  then the reply. It names the outcomes in the proofs below.
\<close>

fun chat_outcome ::
  "faults \<Rightarrow> nat \<Rightarrow> store \<Rightarrow> string \<Rightarrow> hit option \<Rightarrow> tier \<Rightarrow> rat option \<Rightarrow> response \<times> store"
  where
  "chat_outcome F now db q None tr sc =
     (case Log_create F now db q None (if sc = Some 0 then None else sc) tr of
        Inl e \<Rightarrow> (internal_error e, db)
      | Inr db' \<Rightarrow> (ok (ChatMiss fallback_message tr), db'))"
| "chat_outcome F now db q (Some t) tr sc =
     (case Log_create F now db q (Some (kb_id (hit_doc t))) (if sc = Some 0 then None else sc) tr of
        Inl e \<Rightarrow> (internal_error e, db)
      | Inr db' \<Rightarrow>
          (ok (ChatHit (answer (hit_doc t)) (source (hit_doc t)) (tags (hit_doc t)) tr sc), db'))"


text \<open>
  Following the spec's words (the resolver's algorithm): text first, then regex, both
  only for a non-empty query, then the tags when there are any; the first tier that
  finds a document settles the selection, and a rejected find ends the resolution.
\<close>

definition resolve ::
  "textScore \<Rightarrow> faults \<Rightarrow> store \<Rightarrow> string \<Rightarrow> string list \<Rightarrow> string + hit option \<times> tier \<times> rat option"
  where
  "resolve ts F db q tg =
     (case (if q \<noteq> [] then textSearch ts F db q else Inr []) of
        Inl e \<Rightarrow> Inl e
      | Inr (t # _) \<Rightarrow> Inr (Some t, Text, hit_score t)
      | Inr [] \<Rightarrow>
          (case (if q \<noteq> [] then regexFallback F db q else Inr []) of
             Inl e \<Rightarrow> Inl e
           | Inr (t # _) \<Rightarrow> Inr (Some t, Regex, None)
           | Inr [] \<Rightarrow>
               (case (if tg \<noteq> [] then tagFilter F db tg else Inr []) of
                  Inl e \<Rightarrow> Inl e
                | Inr (t # _) \<Rightarrow> Inr (Some t, Tag, None)
                | Inr [] \<Rightarrow> Inr (None, NoTier, None))))"


subsection \<open>A sample store\<close>

text \<open>
  A small knowledge base for the worked examples, with a text scorer in the spirit of
  the index weights: 8 for a search string that is one of the tags, 2 for one that is
  the question or the answer.
\<close>

definition sample_score :: textScore where
  "sample_score q d =
     (if q \<in> set (tags d) then Some 8
      else if q = question d \<or> q = answer d then Some 2
      else None)"

definition parking_doc :: kb_doc where
  "parking_doc = \<lparr>kb_id = 1, question = ''Where is parking?'',
     answer = ''Lot B, behind the hall'', tags = [''parking''], source = ''user'',
     createdAt = 100\<rparr>"

definition staff_doc :: kb_doc where
  "staff_doc = \<lparr>kb_id = 2, question = ''Who teaches C?'', answer = ''Dr. Rao'',
     tags = [''staff''], source = ''user'', createdAt = 101\<rparr>"

definition courses_doc :: kb_doc where
  "courses_doc = \<lparr>kb_id = 3, question = ''Which languages are taught?'',
     answer = ''We teach C++ and Java'', tags = [''courses''], source = ''admin'',
     createdAt = 102\<rparr>"

definition sample_store :: store where
  "sample_store = \<lparr>know_base = [parking_doc, staff_doc, courses_doc], query_logs = [],
     next_oid = 4\<rparr>"

definition empty_store :: store where
  "empty_store = \<lparr>know_base = [], query_logs = [], next_oid = 0\<rparr>"

definition no_faults :: faults where
  "no_faults = (\<lambda>_. None)"

definition only :: "op list \<Rightarrow> faults" where
  "only ops = (\<lambda>c. if c \<in> set ops then Some ''connection lost'' else None)"

text \<open>A store whose log holds one entry for each query of a list, in order.\<close>

definition store_with_log :: "string list \<Rightarrow> store" where
  "store_with_log qs =
     \<lparr>know_base = [],
      query_logs = map (\<lambda>(i, q). \<lparr>log_id = i, query = q, matchedDocId = None, score = None,
                                  matchedBy = NoTier, loggedAt = i\<rparr>)
                     (zip [0..<length qs] qs),
      next_oid = length qs\<rparr>"

section \<open>Properties\<close>

subsection \<open>The regex tier is a literal search\<close>

lemma tokens_escapeRegExp: "tokens (escapeRegExp q) = Compiled (map TChar q)"
  by (induction q) (auto simp: escapeRegExp_def push_def tok_of_def is_alnum_def backslash_def)

lemma parse_TChars:
  "parse st alts cur q (map TChar s @ ts) =
   parse st alts (rev (map Chr s) @ cur) (if s = [] then q else Atom) ts"
  by (induction s arbitrary: cur q) auto

lemma RegExp_escapeRegExp:
  "RegExp (escapeRegExp q) ''i'' = Compiled \<lparr>rx_of = mkSeq (map Chr q), ignoreCase = True\<rparr>"
  using parse_TChars [of "[]" "[]" "[]" NoAtom q "[]"]
  by (simp add: RegExp_def tokens_escapeRegExp)

lemma ends_literal:
  "i \<le> length s \<Longrightarrow>
   ends ic (mkSeq (map Chr q)) s i =
     (if i + length q \<le> length s \<and>
         map (Canonicalize ic) (take (length q) (drop i s)) = map (Canonicalize ic) q
      then [i + length q] else [])"
proof (induction q arbitrary: i)
  case Nil
  then show ?case by simp
next
  case (Cons c q)
  show ?case
  proof (cases "i < length s")
    case True
    then have d: "drop i s = s ! i # drop (Suc i) s"
      by (simp add: Cons_nth_drop_Suc)
    from True have "Suc i \<le> length s" by simp
    from Cons.IH [OF this] True show ?thesis
      by (auto simp: d)
  next
    case False
    then show ?thesis by simp
  qed
qed

lemma Canonicalize_True: "Canonicalize True = toUpperCase_char"
  by (rule ext) (simp add: Canonicalize_def)

lemma rx_test_iff:
  "rx_test r s = (\<exists>i\<le>length s. ends (ignoreCase r) (rx_of r) s i \<noteq> [])"
proof -
  have "set [0..<Suc (length s)] = {i. i \<le> length s}"
    by (auto simp del: upt_Suc)
  then show ?thesis
    unfolding rx_test_def list_ex_iff by blast
qed

lemma literal_ends_iff:
  "i \<le> length s \<Longrightarrow>
   (ends True (mkSeq (map Chr q)) s i \<noteq> []) =
   (i + length q \<le> length s \<and>
    map toUpperCase_char (take (length q) (drop i s)) = map toUpperCase_char q)"
  by (simp add: ends_literal Canonicalize_True)

lemma rx_test_literal:
  "rx_test \<lparr>rx_of = mkSeq (map Chr q), ignoreCase = True\<rparr> s = contains_ignoring_case q s"
proof
  assume "rx_test \<lparr>rx_of = mkSeq (map Chr q), ignoreCase = True\<rparr> s"
  then obtain i where "i \<le> length s" "ends True (mkSeq (map Chr q)) s i \<noteq> []"
    unfolding rx_test_iff by auto
  then have i: "i + length q \<le> length s"
      "map toUpperCase_char (take (length q) (drop i s)) = map toUpperCase_char q"
    by (simp_all add: literal_ends_iff)
  have "s = take i s @ take (length q) (drop i s) @ drop (length q) (drop i s)"
    by (simp only: append_take_drop_id)
  then have "map toUpperCase_char s =
      map toUpperCase_char (take i s) @ map toUpperCase_char q @
      map toUpperCase_char (drop (length q) (drop i s))"
    using i(2) by (metis map_append)
  then show "contains_ignoring_case q s"
    unfolding contains_ignoring_case_def sublist_def by blast
next
  assume "contains_ignoring_case q s"
  then obtain ps ss where e: "map toUpperCase_char s = ps @ map toUpperCase_char q @ ss"
    unfolding contains_ignoring_case_def sublist_def by blast
  then have "length s = length ps + length q + length ss"
    by (metis length_append length_map add.assoc)
  then have l: "length ps \<le> length s" "length ps + length q \<le> length s" by simp_all
  have "map toUpperCase_char (take (length q) (drop (length ps) s)) =
        take (length q) (drop (length ps) (map toUpperCase_char s))"
    by (simp add: take_map drop_map)
  also have "\<dots> = map toUpperCase_char q" by (simp add: e)
  finally have "ends True (mkSeq (map Chr q)) s (length ps) \<noteq> []"
    using l by (simp add: literal_ends_iff)
  with l(1) show "rx_test \<lparr>rx_of = mkSeq (map Chr q), ignoreCase = True\<rparr> s"
    unfolding rx_test_iff by auto
qed

subsection \<open>The text tier\<close>

lemma scored_sound: "(d, s) \<in> set (scored ts q ds) \<Longrightarrow> d \<in> set ds \<and> ts q d = Some s"
  by (induction ds) (auto simp: scored_def split: option.splits)

lemma take_1_cases: "take 1 xs = [] \<or> (\<exists>x. take 1 xs = [x] \<and> x \<in> set xs)"
  by (cases xs) simp_all

lemma textSearch_hit:
  assumes "textSearch ts F db q = Inr (t # rest)"
  shows "rest = [] \<and> hit_doc t \<in> set (know_base db) \<and>
         hit_score t = ts q (hit_doc t) \<and> hit_score t \<noteq> None"
proof -
  let ?ys = "sort_key (\<lambda>(d, s). - s) (scored ts q (know_base db))"
  from assms have e: "map (\<lambda>(d, s). \<lparr>hit_doc = d, hit_score = Some s\<rparr>) (take 1 ?ys) = t # rest"
    by (simp add: textSearch_def split: option.splits)
  from take_1_cases [of ?ys] show ?thesis
  proof (elim disjE exE conjE)
    assume "take 1 ?ys = []"
    with e show ?thesis by simp
  next
    fix x assume x: "take 1 ?ys = [x]" "x \<in> set ?ys"
    obtain d s where ds: "x = (d, s)" by (cases x)
    from x(2) ds have "(d, s) \<in> set (scored ts q (know_base db))"
      by (simp only: set_sort)
    then have "d \<in> set (know_base db)" "ts q d = Some s"
      by (simp_all add: scored_sound)
    moreover from e x(1) ds have "t = \<lparr>hit_doc = d, hit_score = Some s\<rparr>" "rest = []"
      by simp_all
    ultimately show ?thesis by simp
  qed
qed

subsection \<open>The paths through the chat handler\<close>

lemma post_chat_text:
  assumes "or_default [] (chat_query req) \<noteq> []"
    and "textSearch ts F db (or_default [] (chat_query req)) = Inr (t # rest)"
  shows "post_chat ts F now db req =
     (case Log_create F now db (or_default [] (chat_query req)) (Some (kb_id (hit_doc t)))
             (if hit_score t = Some 0 then None else hit_score t) Text of
        Inl e \<Rightarrow> (internal_error e, db)
      | Inr db' \<Rightarrow>
          (ok (ChatHit (answer (hit_doc t)) (source (hit_doc t)) (tags (hit_doc t)) Text
                 (hit_score t)), db'))"
  using assms by (simp add: post_chat_def await_def Let_def split: sum.split)

lemma post_chat_regex:
  assumes "or_default [] (chat_query req) \<noteq> []"
    and "textSearch ts F db (or_default [] (chat_query req)) = Inr []"
    and "regexFallback F db (or_default [] (chat_query req)) = Inr (t # rest)"
  shows "post_chat ts F now db req =
     (case Log_create F now db (or_default [] (chat_query req)) (Some (kb_id (hit_doc t)))
             None Regex of
        Inl e \<Rightarrow> (internal_error e, db)
      | Inr db' \<Rightarrow>
          (ok (ChatHit (answer (hit_doc t)) (source (hit_doc t)) (tags (hit_doc t)) Regex
                 None), db'))"
  using assms by (simp add: post_chat_def await_def Let_def split: sum.split)

lemma post_chat_tag:
  assumes "or_default [] (chat_query req) = [] \<or>
           textSearch ts F db (or_default [] (chat_query req)) = Inr [] \<and>
           regexFallback F db (or_default [] (chat_query req)) = Inr []"
    and "or_default [] (chat_tags req) \<noteq> []"
    and "tagFilter F db (or_default [] (chat_tags req)) = Inr (t # rest)"
  shows "post_chat ts F now db req =
     (case Log_create F now db (or_default [] (chat_query req)) (Some (kb_id (hit_doc t)))
             None Tag of
        Inl e \<Rightarrow> (internal_error e, db)
      | Inr db' \<Rightarrow>
          (ok (ChatHit (answer (hit_doc t)) (source (hit_doc t)) (tags (hit_doc t)) Tag
                 None), db'))"
proof (cases "or_default [] (chat_query req) = []")
  case True
  with assms(2,3) show ?thesis
    by (simp add: post_chat_def await_def Let_def split: sum.split)
next
  case False
  with assms show ?thesis
    by (simp add: post_chat_def await_def Let_def split: sum.split)
qed

lemma post_chat_none:
  assumes "or_default [] (chat_query req) = [] \<or>
           textSearch ts F db (or_default [] (chat_query req)) = Inr [] \<and>
           regexFallback F db (or_default [] (chat_query req)) = Inr []"
    and "or_default [] (chat_tags req) = [] \<or>
         tagFilter F db (or_default [] (chat_tags req)) = Inr []"
  shows "post_chat ts F now db req =
     (case Log_create F now db (or_default [] (chat_query req)) None None NoTier of
        Inl e \<Rightarrow> (internal_error e, db)
      | Inr db' \<Rightarrow> (ok (ChatMiss fallback_message NoTier), db'))"
proof (cases "or_default [] (chat_query req) = []")
  case q: True
  show ?thesis
  proof (cases "or_default [] (chat_tags req) = []")
    case True
    with q show ?thesis
      by (simp add: post_chat_def await_def Let_def split: sum.split)
  next
    case False
    with q assms(2) show ?thesis
      by (simp add: post_chat_def await_def Let_def split: sum.split)
  qed
next
  case q: False
  show ?thesis
  proof (cases "or_default [] (chat_tags req) = []")
    case True
    with q assms(1) show ?thesis
      by (simp add: post_chat_def await_def Let_def split: sum.split)
  next
    case False
    with q assms show ?thesis
      by (simp add: post_chat_def await_def Let_def split: sum.split)
  qed
qed

lemma post_chat_text_rejects:
  assumes "or_default [] (chat_query req) \<noteq> []"
    and "textSearch ts F db (or_default [] (chat_query req)) = Inl e"
  shows "post_chat ts F now db req = (internal_error e, db)"
  using assms by (simp add: post_chat_def await_def Let_def)

lemma post_chat_regex_rejects:
  assumes "or_default [] (chat_query req) \<noteq> []"
    and "textSearch ts F db (or_default [] (chat_query req)) = Inr []"
    and "regexFallback F db (or_default [] (chat_query req)) = Inl e"
  shows "post_chat ts F now db req = (internal_error e, db)"
  using assms by (simp add: post_chat_def await_def Let_def)

lemma post_chat_tag_rejects:
  assumes "or_default [] (chat_query req) = [] \<or>
           textSearch ts F db (or_default [] (chat_query req)) = Inr [] \<and>
           regexFallback F db (or_default [] (chat_query req)) = Inr []"
    and "or_default [] (chat_tags req) \<noteq> []"
    and "tagFilter F db (or_default [] (chat_tags req)) = Inl e"
  shows "post_chat ts F now db req = (internal_error e, db)"
proof (cases "or_default [] (chat_query req) = []")
  case True
  with assms(2,3) show ?thesis
    by (simp add: post_chat_def await_def Let_def)
next
  case False
  with assms show ?thesis
    by (simp add: post_chat_def await_def Let_def)
qed

lemma post_chat_resolve:
  "post_chat ts F now db req =
     (case resolve ts F db (or_default [] (chat_query req)) (or_default [] (chat_tags req)) of
        Inl e \<Rightarrow> (internal_error e, db)
      | Inr (sel, tr, sc) \<Rightarrow>
          chat_outcome F now db (or_default [] (chat_query req)) sel tr sc)"
proof -
  let ?q = "or_default [] (chat_query req)"
  let ?g = "or_default [] (chat_tags req)"
  let ?R = "resolve ts F db ?q ?g"
  have tag_stage: ?thesis
    if pre: "?q = [] \<or> textSearch ts F db ?q = Inr [] \<and> regexFallback F db ?q = Inr []"
  proof -
    from pre have r: "?R = (case (if ?g \<noteq> [] then tagFilter F db ?g else Inr []) of
                  Inl e \<Rightarrow> Inl e
                | Inr (t # _) \<Rightarrow> Inr (Some t, Tag, None)
                | Inr [] \<Rightarrow> Inr (None, NoTier, None))"
      by (auto simp: resolve_def)
    show ?thesis
    proof (cases "?g = []")
      case True
      with pre r show ?thesis by (simp add: post_chat_none)
    next
      case g: False
      show ?thesis
      proof (cases "tagFilter F db ?g")
        case (Inl e)
        with pre g r show ?thesis by (simp add: post_chat_tag_rejects)
      next
        case (Inr rs)
        show ?thesis
        proof (cases rs)
          case Nil
          with pre g r Inr show ?thesis by (simp add: post_chat_none)
        next
          case (Cons t rest)
          with pre g r Inr show ?thesis by (simp add: post_chat_tag)
        qed
      qed
    qed
  qed
  show ?thesis
  proof (cases "?q = []")
    case True
    then show ?thesis by (rule tag_stage [OF disjI1])
  next
    case q: False
    show ?thesis
    proof (cases "textSearch ts F db ?q")
      case (Inl e)
      with q show ?thesis by (simp add: post_chat_text_rejects resolve_def)
    next
      case (Inr rs)
      show ?thesis
      proof (cases rs)
        case (Cons t rest)
        with q Inr show ?thesis by (simp add: post_chat_text resolve_def)
      next
        case Nil
        note tx = Inr [unfolded Nil]
        show ?thesis
        proof (cases "regexFallback F db ?q")
          case (Inl e)
          with q tx show ?thesis by (simp add: post_chat_regex_rejects resolve_def)
        next
          case (Inr rs')
          show ?thesis
          proof (cases rs')
            case Nil
            with tx Inr show ?thesis by (intro tag_stage disjI2) simp
          next
            case (Cons t rest)
            with q tx Inr show ?thesis by (simp add: post_chat_regex resolve_def)
          qed
        qed
      qed
    qed
  qed
qed

subsection \<open>The finds and the resolution\<close>

lemma regexFallback_eq:
  "regexFallback F db q =
     (case F RegexFind of
        Some e \<Rightarrow> Inl e
      | None \<Rightarrow>
          Inr (map lean (take 1 (filter
                 (\<lambda>d. contains_ignoring_case q (question d) \<or>
                      contains_ignoring_case q (answer d))
                 (know_base db)))))"
  by (simp add: regexFallback_def RegExp_escapeRegExp rx_test_literal split: option.split)

lemma finds_same_store:
  assumes "know_base db' = know_base db"
  shows "textSearch ts F db' q = textSearch ts F db q"
    and "regexFallback F db' q = regexFallback F db q"
    and "tagFilter F db' tg = tagFilter F db tg"
  using assms by (simp_all add: textSearch_def regexFallback_eq tagFilter_def split: option.split)

lemma resolve_same_store:
  assumes "know_base db' = know_base db"
  shows "resolve ts F db' q tg = resolve ts F db q tg"
  unfolding resolve_def finds_same_store [OF assms] by (rule refl)

lemma finds_Inr_any_faults:
  "textSearch ts F db q = Inr r \<Longrightarrow> textSearch ts F' db q = Inr r' \<Longrightarrow> r' = r"
  "regexFallback F db q = Inr r \<Longrightarrow> regexFallback F' db q = Inr r' \<Longrightarrow> r' = r"
  "tagFilter F db tg = Inr r \<Longrightarrow> tagFilter F' db tg = Inr r' \<Longrightarrow> r' = r"
  by (auto simp: textSearch_def regexFallback_eq tagFilter_def split: option.splits if_splits)

lemma finds_rejected:
  "textSearch ts F db q = Inl e \<Longrightarrow> F TextFind = Some e"
  "regexFallback F db q = Inl e \<Longrightarrow> F RegexFind = Some e"
  "tagFilter F db tg = Inl e \<Longrightarrow> F TagFind = Some e"
  by (auto simp: textSearch_def regexFallback_eq tagFilter_def split: option.splits if_splits)

lemma finds_length:
  "textSearch ts F db q = Inr r \<Longrightarrow> length r \<le> 1"
  "regexFallback F db q = Inr r \<Longrightarrow> length r \<le> 1"
  "tagFilter F db tg = Inr r \<Longrightarrow> length r \<le> 1"
  by (auto simp: textSearch_def regexFallback_eq tagFilter_def split: option.splits if_splits)

lemma finds_at_most_one:
  "textSearch ts F db q = Inr (t # rest) \<Longrightarrow> rest = []"
  "regexFallback F db q = Inr (t # rest) \<Longrightarrow> rest = []"
  "tagFilter F db tg = Inr (t # rest) \<Longrightarrow> rest = []"
  using finds_length(1) [of ts F db q "t # rest"] finds_length(2) [of F db q "t # rest"]
    finds_length(3) [of F db tg "t # rest"]
  by simp_all

lemma resolve_tier_iff:
  "resolve ts F db q tg = Inr (sel, tr, sc) \<Longrightarrow> (tr = NoTier) = (sel = None)"
  by (auto simp: resolve_def split: sum.splits list.splits if_splits)

lemma resolve_healthy:
  assumes "F TextFind = None" "F RegexFind = None" "F TagFind = None"
  shows "\<exists>sel tr sc. resolve ts F db q tg = Inr (sel, tr, sc)"
proof (cases "resolve ts F db q tg")
  case (Inl e)
  then have "F TextFind = Some e \<or> F RegexFind = Some e \<or> F TagFind = Some e"
    by (auto simp: resolve_def split: sum.splits list.splits if_splits dest: finds_rejected)
  with assms show ?thesis by simp
next
  case (Inr x)
  then show ?thesis by (cases x) auto
qed

lemma resolve_any_faults:
  assumes "resolve ts F db q tg = Inr x" and "resolve ts F' db q tg = Inr y"
  shows "y = x"
proof -
  have tx: "textSearch ts F' db q = Inr r' \<Longrightarrow> textSearch ts F db q = Inr r \<Longrightarrow> r' = r" for r r'
    by (rule finds_Inr_any_faults(1))
  have rx: "regexFallback F' db q = Inr r' \<Longrightarrow> regexFallback F db q = Inr r \<Longrightarrow> r' = r" for r r'
    by (rule finds_Inr_any_faults(2))
  have tf: "tagFilter F' db tg = Inr r' \<Longrightarrow> tagFilter F db tg = Inr r \<Longrightarrow> r' = r" for r r'
    by (rule finds_Inr_any_faults(3))
  from assms show ?thesis
    by (auto simp: resolve_def split: sum.splits list.splits if_splits dest: tx rx tf)
qed

lemma resolve_miss:
  assumes "q = [] \<or> textSearch ts F db q = Inr [] \<and> regexFallback F db q = Inr []"
    and "tg = [] \<or> tagFilter F db tg = Inr []"
  shows "resolve ts F db q tg = Inr (None, NoTier, None)"
  using assms by (auto simp: resolve_def)

lemma resolve_text:
  "q \<noteq> [] \<Longrightarrow> textSearch ts F db q = Inr (t # rest) \<Longrightarrow>
   resolve ts F db q tg = Inr (Some t, Text, hit_score t)"
  by (simp add: resolve_def)

lemma resolve_regex:
  "q \<noteq> [] \<Longrightarrow> textSearch ts F db q = Inr [] \<Longrightarrow>
   regexFallback F db q = Inr (t # rest) \<Longrightarrow>
   resolve ts F db q tg = Inr (Some t, Regex, None)"
  by (simp add: resolve_def)

lemma resolve_tag:
  assumes "q = [] \<or> textSearch ts F db q = Inr [] \<and> regexFallback F db q = Inr []"
    and "tg \<noteq> []" and "tagFilter F db tg = Inr (t # rest)"
  shows "resolve ts F db q tg = Inr (Some t, Tag, None)"
  using assms by (auto simp: resolve_def)

subsection \<open>The log write and the reply\<close>

lemma chat_outcome_rejected:
  "F LogCreate = Some e \<Longrightarrow> chat_outcome F now db q sel tr sc = (internal_error e, db)"
  by (cases sel) (simp_all add: Log_create_def)

lemma chat_outcome_logged:
  "F LogCreate = None \<Longrightarrow>
   chat_outcome F now db q sel tr sc =
     ((case sel of
         None \<Rightarrow> ok (ChatMiss fallback_message tr)
       | Some t \<Rightarrow>
           ok (ChatHit (answer (hit_doc t)) (source (hit_doc t)) (tags (hit_doc t)) tr sc)),
      db\<lparr>query_logs := query_logs db @
             [\<lparr>log_id = next_oid db, query = q,
               matchedDocId = map_option (\<lambda>t. kb_id (hit_doc t)) sel,
               score = (if sc = Some 0 then None else sc), matchedBy = tr, loggedAt = now\<rparr>],
           next_oid := Suc (next_oid db)\<rparr>)"
  by (cases sel) (simp_all add: Log_create_def)

lemma post_chat_healthy:
  assumes "F TextFind = None" "F RegexFind = None" "F TagFind = None" "F LogCreate = None"
  shows "\<exists>sel tr sc.
     resolve ts F db (or_default [] (chat_query req)) (or_default [] (chat_tags req)) =
       Inr (sel, tr, sc) \<and>
     (tr = NoTier) = (sel = None) \<and>
     post_chat ts F now db req =
       ((case sel of
           None \<Rightarrow> ok (ChatMiss fallback_message tr)
         | Some t \<Rightarrow>
             ok (ChatHit (answer (hit_doc t)) (source (hit_doc t)) (tags (hit_doc t)) tr sc)),
        db\<lparr>query_logs := query_logs db @
               [\<lparr>log_id = next_oid db, query = or_default [] (chat_query req),
                 matchedDocId = map_option (\<lambda>t. kb_id (hit_doc t)) sel,
                 score = (if sc = Some 0 then None else sc), matchedBy = tr, loggedAt = now\<rparr>],
             next_oid := Suc (next_oid db)\<rparr>)"
proof -
  from resolve_healthy [OF assms(1-3)] obtain sel tr sc
    where r: "resolve ts F db (or_default [] (chat_query req)) (or_default [] (chat_tags req)) =
       Inr (sel, tr, sc)"
    by blast
  from r have "(tr = NoTier) = (sel = None)" by (rule resolve_tier_iff)
  moreover from r assms(4) have "post_chat ts F now db req =
       ((case sel of
           None \<Rightarrow> ok (ChatMiss fallback_message tr)
         | Some t \<Rightarrow>
             ok (ChatHit (answer (hit_doc t)) (source (hit_doc t)) (tags (hit_doc t)) tr sc)),
        db\<lparr>query_logs := query_logs db @
               [\<lparr>log_id = next_oid db, query = or_default [] (chat_query req),
                 matchedDocId = map_option (\<lambda>t. kb_id (hit_doc t)) sel,
                 score = (if sc = Some 0 then None else sc), matchedBy = tr, loggedAt = now\<rparr>],
             next_oid := Suc (next_oid db)\<rparr>)"
    by (simp add: post_chat_resolve chat_outcome_logged del: chat_outcome.simps)
  ultimately show ?thesis using r by blast
qed

lemma post_chat_cases:
  obtains (rejected) e where "post_chat ts F now db req = (internal_error e, db)"
  | (logged) sel :: "hit option" and tr sc where "(tr = NoTier) = (sel = None)"
      and "post_chat ts F now db req =
       ((case sel of
           None \<Rightarrow> ok (ChatMiss fallback_message tr)
         | Some t \<Rightarrow>
             ok (ChatHit (answer (hit_doc t)) (source (hit_doc t)) (tags (hit_doc t)) tr sc)),
        db\<lparr>query_logs := query_logs db @
               [\<lparr>log_id = next_oid db, query = or_default [] (chat_query req),
                 matchedDocId = map_option (\<lambda>t. kb_id (hit_doc t)) sel,
                 score = (if sc = Some 0 then None else sc), matchedBy = tr, loggedAt = now\<rparr>],
             next_oid := Suc (next_oid db)\<rparr>)"
proof (cases "resolve ts F db (or_default [] (chat_query req)) (or_default [] (chat_tags req))")
  case (Inl e)
  then have "post_chat ts F now db req = (internal_error e, db)"
    by (simp add: post_chat_resolve)
  then show ?thesis by (rule rejected)
next
  case (Inr x)
  obtain sel tr sc where x: "x = (sel, tr, sc)" by (cases x)
  from Inr x have i: "(tr = NoTier) = (sel = None)" by (simp add: resolve_tier_iff)
  show ?thesis
  proof (cases "F LogCreate")
    case (Some e)
    with Inr x have "post_chat ts F now db req = (internal_error e, db)"
      by (simp add: post_chat_resolve chat_outcome_rejected del: chat_outcome.simps)
    then show ?thesis by (rule rejected)
  next
    case None
    with Inr x have "post_chat ts F now db req =
       ((case sel of
           None \<Rightarrow> ok (ChatMiss fallback_message tr)
         | Some t \<Rightarrow>
             ok (ChatHit (answer (hit_doc t)) (source (hit_doc t)) (tags (hit_doc t)) tr sc)),
        db\<lparr>query_logs := query_logs db @
               [\<lparr>log_id = next_oid db, query = or_default [] (chat_query req),
                 matchedDocId = map_option (\<lambda>t. kb_id (hit_doc t)) sel,
                 score = (if sc = Some 0 then None else sc), matchedBy = tr, loggedAt = now\<rparr>],
             next_oid := Suc (next_oid db)\<rparr>)"
      by (simp add: post_chat_resolve chat_outcome_logged del: chat_outcome.simps)
    with i show ?thesis by (rule logged)
  qed
qed

lemma post_chat_know_base:
  "know_base (snd (post_chat ts F now db req)) = know_base db"
proof (cases rule: post_chat_cases [of ts F now db req])
  case (rejected e)
  then show ?thesis by simp
next
  case (logged sel tr sc)
  then show ?thesis by simp
qed

subsection \<open>Adding a record and finding it by tag\<close>

lemma post_kb_created:
  assumes "post_kb F now db req = (\<lparr>status = 201, body = DocBody doc\<rparr>, db')"
  shows "know_base db' = know_base db @ [doc]"
    and "tags doc = map toLowerCase (or_default [] (kb_tags req))"
  using assms
  by (auto simp: post_kb_def KB_create_def Let_def internal_error_def
      split: if_splits option.splits)

lemma tagFilter_finds:
  assumes "F TagFind = None" and "d \<in> set (know_base db)" and "tags_in (map toLowerCase wanted) d"
  shows "\<exists>h. tagFilter F db wanted = Inr [h] \<and> hit_doc h \<in> set (know_base db) \<and>
             tags_in (map toLowerCase wanted) (hit_doc h)"
proof -
  let ?P = "tags_in (map toLowerCase wanted)"
  from assms(3) have w: "wanted \<noteq> []" by (auto simp: tags_in_def list_ex_iff)
  from assms(2,3) have "d \<in> set (filter ?P (know_base db))" by simp
  then obtain x xs where f: "filter ?P (know_base db) = x # xs"
    by (cases "filter ?P (know_base db)") auto
  then have "x \<in> set (filter ?P (know_base db))" by simp
  then have x: "x \<in> set (know_base db)" "?P x" by simp_all
  from w assms(1) f have "tagFilter F db wanted = Inr [lean x]"
    by (simp add: tagFilter_def)
  with x show ?thesis by (simp add: lean_def)
qed

subsection \<open>The aggregation\<close>

lemma sort_key_desc_sorted:
  "sorted_wrt (\<lambda>a b. g_count b \<le> g_count a) (sort_key (\<lambda>g. - int (g_count g)) gs)"
proof -
  have "sorted (map (\<lambda>g. - int (g_count g)) (sort_key (\<lambda>g. - int (g_count g)) gs))"
    by (rule sorted_sort_key)
  then show ?thesis
    by (simp add: sorted_map)
qed

lemma Log_aggregate_groups:
  assumes "F LogAggregate = None" and "qs = map query (query_logs db)"
  shows "\<exists>groups. Log_aggregate F db = Inr groups \<and>
      length groups = min 10 (card (set qs)) \<and>
      distinct (map g_id groups) \<and>
      (\<forall>g\<in>set groups. g_id g \<in> set qs \<and> g_count g = count_list qs (g_id g)) \<and>
      sorted_wrt (\<lambda>a b. g_count b \<le> g_count a) groups \<and>
      (\<forall>q\<in>set qs. q \<notin> g_id ` set groups \<longrightarrow>
         (\<forall>g\<in>set groups. count_list qs q \<le> g_count g))"
proof -
  let ?mk = "\<lambda>q. \<lparr>g_id = q, g_count = count_list qs q\<rparr>"
  let ?all = "sort_key (\<lambda>g. - int (g_count g)) (map ?mk (remdups qs))"
  let ?gs = "take 10 ?all"
  have agg: "Log_aggregate F db = Inr ?gs"
    using assms by (simp add: Log_aggregate_def Let_def)
  have set_all: "set ?all = ?mk ` set qs" by simp
  have len: "length ?gs = min 10 (card (set qs))"
    by (simp add: length_remdups_card_conv min.commute)
  have "map g_id (map ?mk (remdups qs)) = remdups qs" by (simp add: comp_def)
  then have "distinct (map g_id (map ?mk (remdups qs)))" by simp
  then have dist_all: "distinct (map g_id ?all)"
    by (simp add: distinct_map inj_on_def)
  from dist_all have dist: "distinct (map g_id ?gs)"
    by (simp add: take_map [symmetric] distinct_take)
  have mem: "g_id g \<in> set qs \<and> g_count g = count_list qs (g_id g)" if "g \<in> set ?gs" for g
  proof -
    from that have "g \<in> set ?all" by (rule in_set_takeD)
    then show ?thesis unfolding set_all by auto
  qed
  have sorted_all: "sorted_wrt (\<lambda>a b. g_count b \<le> g_count a) ?all"
    by (rule sort_key_desc_sorted)
  then have srt: "sorted_wrt (\<lambda>a b. g_count b \<le> g_count a) ?gs"
    by (rule sorted_wrt_take)
  have top: "count_list qs q \<le> g_count g"
    if q: "q \<in> set qs" "q \<notin> g_id ` set ?gs" and g: "g \<in> set ?gs" for q g
  proof -
    from q(1) have "?mk q \<in> set ?all" unfolding set_all by simp
    moreover from q(2) have "?mk q \<notin> set ?gs" by force
    moreover have "set ?all = set ?gs \<union> set (drop 10 ?all)"
      by (metis append_take_drop_id set_append)
    ultimately have d: "?mk q \<in> set (drop 10 ?all)" by blast
    from sorted_all have "sorted_wrt (\<lambda>a b. g_count b \<le> g_count a) (?gs @ drop 10 ?all)"
      by (simp only: append_take_drop_id)
    with g d have "g_count (?mk q) \<le> g_count g"
      unfolding sorted_wrt_append by blast
    then show ?thesis by simp
  qed
  from agg len dist mem srt top show ?thesis by blast
qed

subsection \<open>The search handler\<close>

lemma finds_lean:
  "regexFallback F db q = Inr (t # rest) \<Longrightarrow> hit_score t = None"
  "tagFilter F db tg = Inr (t # rest) \<Longrightarrow> hit_score t = None"
proof -
  show "regexFallback F db q = Inr (t # rest) \<Longrightarrow> hit_score t = None"
    by (auto simp: regexFallback_eq lean_def split: option.splits)
  show "tagFilter F db tg = Inr (t # rest) \<Longrightarrow> hit_score t = None"
    by (auto simp: tagFilter_def lean_def split: option.splits if_splits)
qed

lemma resolve_score:
  "resolve ts F db q tg = Inr (Some t, tr, sc) \<Longrightarrow> sc = hit_score t"
  by (auto simp: resolve_def split: sum.splits list.splits if_splits dest: finds_lean)

lemma get_kb_search_resolve:
  "get_kb_search ts F db qp tp =
     (case resolve ts F db (or_default [] qp) (tag_list tp) of
        Inl e \<Rightarrow> (internal_error e, db)
      | Inr (sel, tr, sc) \<Rightarrow>
          (ok (SearchBody (or_default [] qp) (tag_list tp)
                 (case sel of None \<Rightarrow> [] | Some t \<Rightarrow> [t])), db))"
proof -
  let ?q = "or_default [] qp"
  let ?g = "tag_list tp"
  have tag_stage: ?thesis
    if pre: "?q = [] \<or> textSearch ts F db ?q = Inr [] \<and> regexFallback F db ?q = Inr []"
  proof -
    from pre have s: "get_kb_search ts F db qp tp =
        (case (if ?g \<noteq> [] then tagFilter F db ?g else Inr []) of
           Inl e \<Rightarrow> (internal_error e, db)
         | Inr results \<Rightarrow> (ok (SearchBody ?q ?g results), db))"
      by (auto simp: get_kb_search_def await_def Let_def split: sum.split)
    show ?thesis
    proof (cases "?g = []")
      case True
      with pre s show ?thesis by (simp add: resolve_miss)
    next
      case g: False
      show ?thesis
      proof (cases "tagFilter F db ?g")
        case (Inl e)
        with pre g s show ?thesis by (auto simp: resolve_def)
      next
        case (Inr rs)
        show ?thesis
        proof (cases rs)
          case Nil
          with pre g s Inr show ?thesis by (simp add: resolve_miss)
        next
          case (Cons t rest)
          with Inr have "rest = []" by (simp add: finds_at_most_one(3))
          with pre g s Inr Cons show ?thesis by (simp add: resolve_tag)
        qed
      qed
    qed
  qed
  show ?thesis
  proof (cases "?q = []")
    case True
    then show ?thesis by (rule tag_stage [OF disjI1])
  next
    case q: False
    show ?thesis
    proof (cases "textSearch ts F db ?q")
      case (Inl e)
      with q show ?thesis by (simp add: get_kb_search_def await_def Let_def resolve_def)
    next
      case (Inr rs)
      show ?thesis
      proof (cases rs)
        case (Cons t rest)
        with Inr have "rest = []" by (simp add: finds_at_most_one(1))
        with q Inr Cons show ?thesis
          by (simp add: get_kb_search_def await_def Let_def resolve_text)
      next
        case Nil
        note tx = Inr [unfolded Nil]
        show ?thesis
        proof (cases "regexFallback F db ?q")
          case (Inl e)
          with q tx show ?thesis by (simp add: get_kb_search_def await_def Let_def resolve_def)
        next
          case (Inr rs')
          show ?thesis
          proof (cases rs')
            case Nil
            with tx Inr show ?thesis by (intro tag_stage disjI2) simp
          next
            case (Cons t rest)
            with Inr have "rest = []" by (simp add: finds_at_most_one(2))
            with q tx Inr Cons show ?thesis
              by (simp add: get_kb_search_def await_def Let_def resolve_regex)
          qed
        qed
      qed
    qed
  qed
qed


section \<open>The claims\<close>

text \<open>
  C1 (as amended). The claim that the answer reaches the caller also when the log
  write fails does not hold: \<^verbatim>\<open>Log.create\<close> is awaited inside the handler's
  \<^verbatim>\<open>try\<close>, before the reply is sent. What holds: when the tiers have selected a
  record \<open>t\<close> (by text, by regex or by tag) and the log write rejects, the response is
  status 500 with the rejection's message and the store is left as it was; when the
  write succeeds the reply carries the record's answer and one entry has been logged.
\<close>

theorem post_chat_log_failure_is_the_response:
  assumes "q = or_default [] (chat_query req)"
    and "tg = or_default [] (chat_tags req)"
    and "q \<noteq> [] \<and> textSearch ts F db q = Inr (t # rest) \<or>
         q \<noteq> [] \<and> textSearch ts F db q = Inr [] \<and> regexFallback F db q = Inr (t # rest) \<or>
         (q = [] \<or> textSearch ts F db q = Inr [] \<and> regexFallback F db q = Inr []) \<and>
         tg \<noteq> [] \<and> tagFilter F db tg = Inr (t # rest)"
  shows "case F LogCreate of
           Some e \<Rightarrow> post_chat ts F now db req = (internal_error e, db)
         | None \<Rightarrow>
             (\<exists>tr sc. fst (post_chat ts F now db req) =
                ok (ChatHit (answer (hit_doc t)) (source (hit_doc t)) (tags (hit_doc t)) tr sc)) \<and>
             length (query_logs (snd (post_chat ts F now db req))) = Suc (length (query_logs db))"
proof -
  from assms(3) have "\<exists>tr sc. resolve ts F db q tg = Inr (Some t, tr, sc)"
    by (auto simp: resolve_def)
  then obtain tr sc where "resolve ts F db q tg = Inr (Some t, tr, sc)" by blast
  with assms(1,2) have p: "post_chat ts F now db req = chat_outcome F now db q (Some t) tr sc"
    by (simp add: post_chat_resolve)
  show ?thesis
  proof (cases "F LogCreate")
    case None
    with p show ?thesis
      by (simp add: chat_outcome_logged del: chat_outcome.simps) blast
  next
    case (Some e)
    with p show ?thesis by (simp add: chat_outcome_rejected del: chat_outcome.simps)
  qed
qed


text \<open>
  On the sample store with the log write down, a query that hits by text and one that
  hits by tag both come back as status 500; with the log write up the first is answered.
\<close>

theorem post_chat_log_failure_is_the_response_witness:
  "post_chat sample_score (only [LogCreate]) 7 sample_store
     \<lparr>chat_query = Some ''parking'', chat_tags = None\<rparr> =
     (internal_error ''connection lost'', sample_store) \<and>
   post_chat sample_score (only [LogCreate]) 7 sample_store
     \<lparr>chat_query = None, chat_tags = Some [''Staff'']\<rparr> =
     (internal_error ''connection lost'', sample_store) \<and>
   length (query_logs (snd (post_chat sample_score no_faults 7 sample_store
     \<lparr>chat_query = Some ''parking'', chat_tags = None\<rparr>))) = 1"
proof (intro conjI)
  let ?req = "\<lparr>chat_query = Some ''parking'', chat_tags = None\<rparr>"
  let ?t = "\<lparr>hit_doc = parking_doc, hit_score = Some 8\<rparr>"
  have q: "''parking'' = or_default [] (chat_query ?req)"
    and tg: "[] = or_default [] (chat_tags ?req)"
    by (simp_all add: or_default_def)
  have tx: "textSearch sample_score (only [LogCreate]) sample_store ''parking'' = Inr [?t]"
    by code_simp
  have tx': "textSearch sample_score no_faults sample_store ''parking'' = Inr [?t]"
    by code_simp
  from post_chat_log_failure_is_the_response
         [where F = "only [LogCreate]" and ts = sample_score and db = sample_store and t = ?t
            and rest = "[]" and now = 7, OF q tg] tx
  show "post_chat sample_score (only [LogCreate]) 7 sample_store ?req =
      (internal_error ''connection lost'', sample_store)"
    by (simp add: only_def)
  from post_chat_log_failure_is_the_response
         [where F = no_faults and ts = sample_score and db = sample_store and t = ?t
            and rest = "[]" and now = 7, OF q tg] tx'
  show "length (query_logs (snd (post_chat sample_score no_faults 7 sample_store ?req))) = 1"
    by (simp add: no_faults_def sample_store_def)
next
  let ?req = "\<lparr>chat_query = None, chat_tags = Some [''Staff'']\<rparr>"
  let ?t = "lean staff_doc"
  have q: "[] = or_default [] (chat_query ?req)"
    and tg: "[''Staff''] = or_default [] (chat_tags ?req)"
    by (simp_all add: or_default_def)
  have tf: "tagFilter (only [LogCreate]) sample_store [''Staff''] = Inr [?t]"
    by code_simp
  from post_chat_log_failure_is_the_response
         [where F = "only [LogCreate]" and ts = sample_score and db = sample_store and t = ?t
            and rest = "[]" and now = 7, OF q tg] tf
  show "post_chat sample_score (only [LogCreate]) 7 sample_store ?req =
      (internal_error ''connection lost'', sample_store)"
    by (simp add: only_def)
qed

text \<open>
  The claim as stated fails: the text tier selects the parking record, the log write
  rejects, and the response is the rejection, not the answer.
\<close>

theorem post_chat_log_failure_counterexample:
  "textSearch sample_score (only [LogCreate]) sample_store ''parking'' =
     Inr [\<lparr>hit_doc = parking_doc, hit_score = Some 8\<rparr>] \<and>
   post_chat sample_score (only [LogCreate]) 7 sample_store
     \<lparr>chat_query = Some ''parking'', chat_tags = None\<rparr> =
     (\<lparr>status = 500, body = ErrorBody ''connection lost''\<rparr>, sample_store)"
  by code_simp

text \<open>
  C2. The tiers of \<^verbatim>\<open>/chat\<close> are tried in strict priority order, and the first
  that finds a document settles the reply (the log write succeeding). With \<open>q\<close> the
  query and \<open>tg\<close> the tags of the request: a text hit is returned as \<^verbatim>\<open>text\<close> with
  its relevance score, whatever the regex and tag finds would do; a regex hit is
  returned only when the query is non-empty and the text tier found nothing, as
  \<^verbatim>\<open>regex\<close> without score; a tag hit only when the tags are non-empty and the earlier
  tiers were skipped (empty query) or found nothing, as \<^verbatim>\<open>tag\<close> without score;
  otherwise the reply is the fallback message with \<^verbatim>\<open>none\<close>. No case needs the
  finds of the later tiers to succeed: they are not run.
\<close>

theorem post_chat_tiers_in_priority_order:
  assumes "q = or_default [] (chat_query req)"
    and "tg = or_default [] (chat_tags req)"
    and "F LogCreate = None"
  shows
    "(q \<noteq> [] \<and> textSearch ts F db q = Inr (t # rest) \<longrightarrow>
        fst (post_chat ts F now db req) =
          ok (ChatHit (answer (hit_doc t)) (source (hit_doc t)) (tags (hit_doc t)) Text
                (ts q (hit_doc t))) \<and>
        ts q (hit_doc t) \<noteq> None) \<and>
     (q \<noteq> [] \<and> textSearch ts F db q = Inr [] \<and> regexFallback F db q = Inr (t # rest) \<longrightarrow>
        fst (post_chat ts F now db req) =
          ok (ChatHit (answer (hit_doc t)) (source (hit_doc t)) (tags (hit_doc t)) Regex None)) \<and>
     ((q = [] \<or> textSearch ts F db q = Inr [] \<and> regexFallback F db q = Inr []) \<and>
      tg \<noteq> [] \<and> tagFilter F db tg = Inr (t # rest) \<longrightarrow>
        fst (post_chat ts F now db req) =
          ok (ChatHit (answer (hit_doc t)) (source (hit_doc t)) (tags (hit_doc t)) Tag None)) \<and>
     ((q = [] \<or> textSearch ts F db q = Inr [] \<and> regexFallback F db q = Inr []) \<and>
      (tg = [] \<or> tagFilter F db tg = Inr []) \<longrightarrow>
        fst (post_chat ts F now db req) = ok (ChatMiss fallback_message NoTier))"
proof (intro conjI impI)
  assume h: "q \<noteq> [] \<and> textSearch ts F db q = Inr (t # rest)"
  then have "textSearch ts F db q = Inr (t # rest)" by simp
  from textSearch_hit [OF this]
  have s: "hit_score t = ts q (hit_doc t)" "hit_score t \<noteq> None" by blast+
  from h assms(1) have "post_chat ts F now db req =
      (case Log_create F now db q (Some (kb_id (hit_doc t)))
              (if hit_score t = Some 0 then None else hit_score t) Text of
         Inl e \<Rightarrow> (internal_error e, db)
       | Inr db' \<Rightarrow>
           (ok (ChatHit (answer (hit_doc t)) (source (hit_doc t)) (tags (hit_doc t)) Text
                  (hit_score t)), db'))"
    by (simp add: post_chat_text [of req ts F db t rest])
  with assms(3) s(1) show "fst (post_chat ts F now db req) =
      ok (ChatHit (answer (hit_doc t)) (source (hit_doc t)) (tags (hit_doc t)) Text
            (ts q (hit_doc t)))"
    by (simp add: Log_create_def)
  from s show "ts q (hit_doc t) \<noteq> None" by simp
next
  assume "q \<noteq> [] \<and> textSearch ts F db q = Inr [] \<and> regexFallback F db q = Inr (t # rest)"
  with assms show "fst (post_chat ts F now db req) =
      ok (ChatHit (answer (hit_doc t)) (source (hit_doc t)) (tags (hit_doc t)) Regex None)"
    by (simp add: post_chat_regex [of req ts F db t rest] Log_create_def)
next
  assume "(q = [] \<or> textSearch ts F db q = Inr [] \<and> regexFallback F db q = Inr []) \<and>
      tg \<noteq> [] \<and> tagFilter F db tg = Inr (t # rest)"
  with assms show "fst (post_chat ts F now db req) =
      ok (ChatHit (answer (hit_doc t)) (source (hit_doc t)) (tags (hit_doc t)) Tag None)"
    by (simp add: post_chat_tag [of req ts F db t rest] Log_create_def)
next
  assume "(q = [] \<or> textSearch ts F db q = Inr [] \<and> regexFallback F db q = Inr []) \<and>
      (tg = [] \<or> tagFilter F db tg = Inr [])"
  with assms show "fst (post_chat ts F now db req) = ok (ChatMiss fallback_message NoTier)"
    by (simp add: post_chat_none [of req ts F db] Log_create_def)
qed


text \<open>
  On the sample store: \<^verbatim>\<open>parking\<close> hits by text (and would by regex) while the
  regex and tag finds are down; \<^verbatim>\<open>c++\<close> misses by text and hits by regex while the
  tag find is down; an empty query with tag \<^verbatim>\<open>Staff\<close> hits by tag while the text and
  regex finds are down; \<^verbatim>\<open>zzz\<close> without tags misses.
\<close>

theorem post_chat_tiers_in_priority_order_witness:
  "fst (post_chat sample_score (only [RegexFind, TagFind]) 7 sample_store
          \<lparr>chat_query = Some ''parking'', chat_tags = Some [''staff'']\<rparr>) =
     ok (ChatHit (answer parking_doc) (source parking_doc) (tags parking_doc) Text (Some 8)) \<and>
   fst (post_chat sample_score (only [TagFind]) 7 sample_store
          \<lparr>chat_query = Some ''c++'', chat_tags = Some [''staff'']\<rparr>) =
     ok (ChatHit (answer courses_doc) (source courses_doc) (tags courses_doc) Regex None) \<and>
   fst (post_chat sample_score (only [TextFind, RegexFind]) 7 sample_store
          \<lparr>chat_query = None, chat_tags = Some [''Staff'']\<rparr>) =
     ok (ChatHit (answer staff_doc) (source staff_doc) (tags staff_doc) Tag None) \<and>
   fst (post_chat sample_score no_faults 7 sample_store
          \<lparr>chat_query = Some ''zzz'', chat_tags = None\<rparr>) =
     ok (ChatMiss fallback_message NoTier)"
proof (intro conjI)
  let ?req = "\<lparr>chat_query = Some ''parking'', chat_tags = Some [''staff'']\<rparr>"
  let ?F = "only [RegexFind, TagFind]"
  let ?t = "\<lparr>hit_doc = parking_doc, hit_score = Some 8\<rparr>"
  have q: "''parking'' = or_default [] (chat_query ?req)"
    and tg: "[''staff''] = or_default [] (chat_tags ?req)"
    and l: "?F LogCreate = None"
    by (simp_all add: or_default_def only_def)
  have tx: "textSearch sample_score ?F sample_store ''parking'' = Inr [?t]"
    by code_simp
  have sc: "sample_score ''parking'' parking_doc = Some 8"
    by code_simp
  from post_chat_tiers_in_priority_order
         [where F = ?F and ts = sample_score and db = sample_store and t = ?t and rest = "[]"
            and now = 7, OF q tg l]
  have "''parking'' \<noteq> [] \<and> textSearch sample_score ?F sample_store ''parking'' = Inr [?t] \<longrightarrow>
        fst (post_chat sample_score ?F 7 sample_store ?req) =
          ok (ChatHit (answer (hit_doc ?t)) (source (hit_doc ?t)) (tags (hit_doc ?t)) Text
                (sample_score ''parking'' (hit_doc ?t))) \<and>
        sample_score ''parking'' (hit_doc ?t) \<noteq> None"
    by (rule conjunct1)
  with tx sc show "fst (post_chat sample_score ?F 7 sample_store ?req) =
      ok (ChatHit (answer parking_doc) (source parking_doc) (tags parking_doc) Text (Some 8))"
    by simp
next
  let ?req = "\<lparr>chat_query = Some ''c++'', chat_tags = Some [''staff'']\<rparr>"
  let ?F = "only [TagFind]"
  let ?t = "lean courses_doc"
  have q: "''c++'' = or_default [] (chat_query ?req)"
    and tg: "[''staff''] = or_default [] (chat_tags ?req)"
    and l: "?F LogCreate = None"
    by (simp_all add: or_default_def only_def)
  have tx: "textSearch sample_score ?F sample_store ''c++'' = Inr []"
    by code_simp
  have rx: "regexFallback ?F sample_store ''c++'' = Inr [?t]"
    by code_simp
  from post_chat_tiers_in_priority_order
         [where F = ?F and ts = sample_score and db = sample_store and t = ?t and rest = "[]"
            and now = 7, OF q tg l]
  have "''c++'' \<noteq> [] \<and> textSearch sample_score ?F sample_store ''c++'' = Inr [] \<and>
        regexFallback ?F sample_store ''c++'' = Inr [?t] \<longrightarrow>
        fst (post_chat sample_score ?F 7 sample_store ?req) =
          ok (ChatHit (answer (hit_doc ?t)) (source (hit_doc ?t)) (tags (hit_doc ?t)) Regex None)"
    by (rule conjunct2 [THEN conjunct1])
  with tx rx show "fst (post_chat sample_score ?F 7 sample_store ?req) =
      ok (ChatHit (answer courses_doc) (source courses_doc) (tags courses_doc) Regex None)"
    by (simp add: lean_def)
next
  let ?req = "\<lparr>chat_query = None, chat_tags = Some [''Staff'']\<rparr>"
  let ?F = "only [TextFind, RegexFind]"
  let ?t = "lean staff_doc"
  have q: "[] = or_default [] (chat_query ?req)"
    and tg: "[''Staff''] = or_default [] (chat_tags ?req)"
    and l: "?F LogCreate = None"
    by (simp_all add: or_default_def only_def)
  have tf: "tagFilter ?F sample_store [''Staff''] = Inr [?t]"
    by code_simp
  from post_chat_tiers_in_priority_order
         [where F = ?F and ts = sample_score and db = sample_store and t = ?t and rest = "[]"
            and now = 7, OF q tg l]
  have "([] = ([]::string) \<or> textSearch sample_score ?F sample_store [] = Inr [] \<and>
           regexFallback ?F sample_store [] = Inr []) \<and>
        [''Staff''] \<noteq> [] \<and> tagFilter ?F sample_store [''Staff''] = Inr [?t] \<longrightarrow>
        fst (post_chat sample_score ?F 7 sample_store ?req) =
          ok (ChatHit (answer (hit_doc ?t)) (source (hit_doc ?t)) (tags (hit_doc ?t)) Tag None)"
    by (rule conjunct2 [THEN conjunct2, THEN conjunct1])
  with tf show "fst (post_chat sample_score ?F 7 sample_store ?req) =
      ok (ChatHit (answer staff_doc) (source staff_doc) (tags staff_doc) Tag None)"
    by (simp add: lean_def)
next
  let ?req = "\<lparr>chat_query = Some ''zzz'', chat_tags = None\<rparr>"
  let ?F = "no_faults"
  have q: "''zzz'' = or_default [] (chat_query ?req)"
    and tg: "[] = or_default [] (chat_tags ?req)"
    and l: "?F LogCreate = None"
    by (simp_all add: or_default_def no_faults_def)
  have tx: "textSearch sample_score ?F sample_store ''zzz'' = Inr []"
    by code_simp
  have rx: "regexFallback ?F sample_store ''zzz'' = Inr []"
    by code_simp
  from post_chat_tiers_in_priority_order
         [where F = ?F and ts = sample_score and db = sample_store and t = "lean staff_doc" and rest = "[]"
            and now = 7, OF q tg l]
  have "(''zzz'' = [] \<or> textSearch sample_score ?F sample_store ''zzz'' = Inr [] \<and>
           regexFallback ?F sample_store ''zzz'' = Inr []) \<and>
        ([] = ([]::string list) \<or> tagFilter ?F sample_store [] = Inr []) \<longrightarrow>
        fst (post_chat sample_score ?F 7 sample_store ?req) =
          ok (ChatMiss fallback_message NoTier)"
    by (rule conjunct2 [THEN conjunct2, THEN conjunct2])
  with tx rx show "fst (post_chat sample_score ?F 7 sample_store ?req) =
      ok (ChatMiss fallback_message NoTier)"
    by simp
qed
text \<open>
  C3 (as amended). That every \<^verbatim>\<open>/chat\<close> invocation writes exactly one log entry
  does not hold: a driver call that rejects ends the request in the handler's
  \<^verbatim>\<open>catch\<close>, and a find that rejects does so before \<^verbatim>\<open>Log.create\<close> is reached.
  What holds: every invocation either answers status 500 and leaves the store as it
  was, or answers status 200 and appends exactly one entry to the log, for the query
  as submitted, under the tier the reply names (\<^verbatim>\<open>none\<close> with the fallback message
  on a miss); it answers status 200 whenever no driver call rejects. In particular
  for the empty query with no tags and for the total miss, where every tier that runs
  finds nothing: the log write succeeding, the response is the fallback message with
  \<^verbatim>\<open>none\<close> and the one entry written has \<^verbatim>\<open>none\<close> and no matched record.
\<close>

theorem post_chat_writes_one_log_entry:
  assumes "q = or_default [] (chat_query req)"
    and "tg = or_default [] (chat_tags req)"
  shows
    "(status (fst (post_chat ts F now db req)) = 500 \<and> snd (post_chat ts F now db req) = db \<or>
      status (fst (post_chat ts F now db req)) = 200 \<and>
      (\<exists>entry.
         snd (post_chat ts F now db req) =
           db\<lparr>query_logs := query_logs db @ [entry], next_oid := Suc (next_oid db)\<rparr> \<and>
         query entry = q \<and>
         (case body (fst (post_chat ts F now db req)) of
            ChatMiss m tr \<Rightarrow> m = fallback_message \<and> tr = NoTier \<and> matchedBy entry = NoTier
          | ChatHit a s g tr sc \<Rightarrow> tr \<noteq> NoTier \<and> matchedBy entry = tr
          | _ \<Rightarrow> False))) \<and>
     (F TextFind = None \<and> F RegexFind = None \<and> F TagFind = None \<and> F LogCreate = None \<longrightarrow>
        status (fst (post_chat ts F now db req)) = 200) \<and>
     (F LogCreate = None \<and>
      (q = [] \<or> textSearch ts F db q = Inr [] \<and> regexFallback F db q = Inr []) \<and>
      (tg = [] \<or> tagFilter F db tg = Inr []) \<longrightarrow>
        post_chat ts F now db req =
          (ok (ChatMiss fallback_message NoTier),
           db\<lparr>query_logs := query_logs db @
                  [\<lparr>log_id = next_oid db, query = q, matchedDocId = None, score = None,
                    matchedBy = NoTier, loggedAt = now\<rparr>],
                next_oid := Suc (next_oid db)\<rparr>))"
proof (intro conjI impI)
  let ?R = "post_chat ts F now db req"
  show "status (fst ?R) = 500 \<and> snd ?R = db \<or>
      status (fst ?R) = 200 \<and>
      (\<exists>entry.
         snd ?R = db\<lparr>query_logs := query_logs db @ [entry], next_oid := Suc (next_oid db)\<rparr> \<and>
         query entry = q \<and>
         (case body (fst ?R) of
            ChatMiss m tr \<Rightarrow> m = fallback_message \<and> tr = NoTier \<and> matchedBy entry = NoTier
          | ChatHit a s g tr sc \<Rightarrow> tr \<noteq> NoTier \<and> matchedBy entry = tr
          | _ \<Rightarrow> False))"
  proof (cases rule: post_chat_cases [of ts F now db req])
    case (rejected e)
    then have "status (fst ?R) = 500 \<and> snd ?R = db"
      by (simp add: internal_error_def)
    then show ?thesis by (rule disjI1)
  next
    case (logged sel tr sc)
    let ?e = "\<lparr>log_id = next_oid db, query = or_default [] (chat_query req),
                 matchedDocId = map_option (\<lambda>t. kb_id (hit_doc t)) sel,
                 score = (if sc = Some 0 then None else sc), matchedBy = tr, loggedAt = now\<rparr>"
    from logged(2) have s: "status (fst ?R) = 200"
      by (cases sel) (simp_all add: ok_def)
    from logged(2) have a: "snd ?R =
        db\<lparr>query_logs := query_logs db @ [?e], next_oid := Suc (next_oid db)\<rparr>"
      by simp
    have b: "query ?e = q" by (simp add: assms(1))
    from logged have c: "case body (fst ?R) of
            ChatMiss m tr \<Rightarrow> m = fallback_message \<and> tr = NoTier \<and> matchedBy ?e = NoTier
          | ChatHit a s g tr sc \<Rightarrow> tr \<noteq> NoTier \<and> matchedBy ?e = tr
          | _ \<Rightarrow> False"
      by (cases sel) (simp_all add: ok_def)
    have "\<exists>entry.
         snd ?R = db\<lparr>query_logs := query_logs db @ [entry], next_oid := Suc (next_oid db)\<rparr> \<and>
         query entry = q \<and>
         (case body (fst ?R) of
            ChatMiss m tr \<Rightarrow> m = fallback_message \<and> tr = NoTier \<and> matchedBy entry = NoTier
          | ChatHit a s g tr sc \<Rightarrow> tr \<noteq> NoTier \<and> matchedBy entry = tr
          | _ \<Rightarrow> False)"
      by (rule exI [of _ ?e]) (rule conjI [OF a conjI [OF b c]])
    with s show ?thesis by (intro disjI2 conjI)
  qed
next
  assume "F TextFind = None \<and> F RegexFind = None \<and> F TagFind = None \<and> F LogCreate = None"
  then have f: "F TextFind = None" "F RegexFind = None" "F TagFind = None" "F LogCreate = None"
    by simp_all
  from post_chat_healthy [OF f, of ts db req now] obtain sel :: "hit option" and tr sc
    where p: "post_chat ts F now db req =
       ((case sel of
           None \<Rightarrow> ok (ChatMiss fallback_message tr)
         | Some t \<Rightarrow>
             ok (ChatHit (answer (hit_doc t)) (source (hit_doc t)) (tags (hit_doc t)) tr sc)),
        db\<lparr>query_logs := query_logs db @
               [\<lparr>log_id = next_oid db, query = or_default [] (chat_query req),
                 matchedDocId = map_option (\<lambda>t. kb_id (hit_doc t)) sel,
                 score = (if sc = Some 0 then None else sc), matchedBy = tr, loggedAt = now\<rparr>],
             next_oid := Suc (next_oid db)\<rparr>)"
    by blast
  then show "status (fst (post_chat ts F now db req)) = 200"
    by (cases sel) (simp_all add: ok_def)
next
  assume h: "F LogCreate = None \<and>
      (q = [] \<or> textSearch ts F db q = Inr [] \<and> regexFallback F db q = Inr []) \<and>
      (tg = [] \<or> tagFilter F db tg = Inr [])"
  then have "resolve ts F db q tg = Inr (None, NoTier, None)"
    by (intro resolve_miss) simp_all
  with h assms show "post_chat ts F now db req =
          (ok (ChatMiss fallback_message NoTier),
           db\<lparr>query_logs := query_logs db @
                  [\<lparr>log_id = next_oid db, query = q, matchedDocId = None, score = None,
                    matchedBy = NoTier, loggedAt = now\<rparr>],
                next_oid := Suc (next_oid db)\<rparr>)"
    by (simp add: post_chat_resolve chat_outcome_logged del: chat_outcome.simps)
qed


text \<open>
  On the sample store: an empty request, and a query that misses by text and by regex
  with no tags (the tag find, which is not run, being down), each write the one
  \<^verbatim>\<open>none\<close> entry; a request with every call succeeding ends with status 200.
\<close>

theorem post_chat_writes_one_log_entry_witness:
  "post_chat sample_score no_faults 7 sample_store \<lparr>chat_query = None, chat_tags = None\<rparr> =
     (ok (ChatMiss fallback_message NoTier),
      sample_store\<lparr>query_logs := query_logs sample_store @
          [\<lparr>log_id = next_oid sample_store, query = [], matchedDocId = None, score = None,
            matchedBy = NoTier, loggedAt = 7\<rparr>],
        next_oid := Suc (next_oid sample_store)\<rparr>) \<and>
   post_chat sample_score (only [TagFind]) 7 sample_store
       \<lparr>chat_query = Some ''zzz'', chat_tags = None\<rparr> =
     (ok (ChatMiss fallback_message NoTier),
      sample_store\<lparr>query_logs := query_logs sample_store @
          [\<lparr>log_id = next_oid sample_store, query = ''zzz'', matchedDocId = None, score = None,
            matchedBy = NoTier, loggedAt = 7\<rparr>],
        next_oid := Suc (next_oid sample_store)\<rparr>) \<and>
   status (fst (post_chat sample_score no_faults 7 sample_store
       \<lparr>chat_query = Some ''parking'', chat_tags = Some [''staff'']\<rparr>)) = 200"
proof (intro conjI)
  let ?r1 = "\<lparr>chat_query = None, chat_tags = None\<rparr>"
  let ?r2 = "\<lparr>chat_query = Some ''zzz'', chat_tags = None\<rparr>"
  let ?r3 = "\<lparr>chat_query = Some ''parking'', chat_tags = Some [''staff'']\<rparr>"
  have q1: "[] = or_default [] (chat_query ?r1)" and tg1: "[] = or_default [] (chat_tags ?r1)"
    and q2: "''zzz'' = or_default [] (chat_query ?r2)" and tg2: "[] = or_default [] (chat_tags ?r2)"
    and q3: "''parking'' = or_default [] (chat_query ?r3)"
    and tg3: "[''staff''] = or_default [] (chat_tags ?r3)"
    by (simp_all add: or_default_def)
  have f: "no_faults TextFind = None \<and> no_faults RegexFind = None \<and> no_faults TagFind = None \<and>
      no_faults LogCreate = None"
    by (simp add: no_faults_def)
  have l: "no_faults LogCreate = None" "only [TagFind] LogCreate = None"
    by (simp_all add: no_faults_def only_def)
  have tx: "textSearch sample_score (only [TagFind]) sample_store ''zzz'' = Inr []"
    and rx: "regexFallback (only [TagFind]) sample_store ''zzz'' = Inr []"
    by code_simp+
  from post_chat_writes_one_log_entry
         [where F = no_faults and ts = sample_score and db = sample_store and now = 7,
          OF q1 tg1, THEN conjunct2, THEN conjunct2] l(1)
  show "post_chat sample_score no_faults 7 sample_store ?r1 =
     (ok (ChatMiss fallback_message NoTier),
      sample_store\<lparr>query_logs := query_logs sample_store @
          [\<lparr>log_id = next_oid sample_store, query = [], matchedDocId = None, score = None,
            matchedBy = NoTier, loggedAt = 7\<rparr>],
        next_oid := Suc (next_oid sample_store)\<rparr>)"
    by simp
  from post_chat_writes_one_log_entry
         [where F = "only [TagFind]" and ts = sample_score and db = sample_store and now = 7,
          OF q2 tg2, THEN conjunct2, THEN conjunct2] l(2) tx rx
  show "post_chat sample_score (only [TagFind]) 7 sample_store ?r2 =
     (ok (ChatMiss fallback_message NoTier),
      sample_store\<lparr>query_logs := query_logs sample_store @
          [\<lparr>log_id = next_oid sample_store, query = ''zzz'', matchedDocId = None, score = None,
            matchedBy = NoTier, loggedAt = 7\<rparr>],
        next_oid := Suc (next_oid sample_store)\<rparr>)"
    by simp
  from post_chat_writes_one_log_entry
         [where F = no_faults and ts = sample_score and db = sample_store and now = 7,
          OF q3 tg3, THEN conjunct2, THEN conjunct1, THEN mp, OF f]
  show "status (fst (post_chat sample_score no_faults 7 sample_store ?r3)) = 200" .
qed


text \<open>
  The claim as stated fails: the text find rejects, the response is status 500, and
  the log has as many entries afterwards as before.
\<close>

theorem post_chat_rejected_find_counterexample:
  "post_chat sample_score (only [TextFind]) 7 sample_store
     \<lparr>chat_query = Some ''parking'', chat_tags = None\<rparr> =
     (\<lparr>status = 500, body = ErrorBody ''connection lost''\<rparr>, sample_store) \<and>
   length (query_logs (snd (post_chat sample_score (only [TextFind]) 7 sample_store
     \<lparr>chat_query = Some ''parking'', chat_tags = None\<rparr>))) =
   length (query_logs sample_store)"
  by code_simp

text \<open>
  C4. In every log entry the handler writes, \<^verbatim>\<open>matchedBy\<close> is \<^verbatim>\<open>none\<close> if and only
  if \<^verbatim>\<open>matchedDocId\<close> is absent. The log after a \<^verbatim>\<open>/chat\<close> invocation is the log
  before followed by at most one new entry, and the new entry satisfies the
  equivalence, whatever the driver calls do.
\<close>

theorem log_entry_none_iff_no_match:
  "\<exists>new. query_logs (snd (post_chat ts F now db req)) = query_logs db @ new \<and>
         length new \<le> 1 \<and>
         (\<forall>e\<in>set new. (matchedBy e = NoTier) = (matchedDocId e = None))"
proof (cases rule: post_chat_cases [of ts F now db req])
  case (rejected e)
  then show ?thesis by (intro exI [of _ "[]"]) simp
next
  case (logged sel tr sc)
  then show ?thesis
    by (intro exI [of _ "[\<lparr>log_id = next_oid db, query = or_default [] (chat_query req),
                 matchedDocId = map_option (\<lambda>t. kb_id (hit_doc t)) sel,
                 score = (if sc = Some 0 then None else sc), matchedBy = tr,
                 loggedAt = now\<rparr>]"]) simp
qed


text \<open>The entries written on a text hit and on a miss of the sample store.\<close>

theorem log_entry_none_iff_no_match_witness:
  "query_logs (snd (post_chat sample_score no_faults 7 sample_store
      \<lparr>chat_query = Some ''parking'', chat_tags = None\<rparr>)) =
     [\<lparr>log_id = 4, query = ''parking'', matchedDocId = Some 1, score = Some 8,
       matchedBy = Text, loggedAt = 7\<rparr>] \<and>
   query_logs (snd (post_chat sample_score no_faults 7 sample_store
      \<lparr>chat_query = Some ''zzz'', chat_tags = Some [''nothing'']\<rparr>)) =
     [\<lparr>log_id = 4, query = ''zzz'', matchedDocId = None, score = None,
       matchedBy = NoTier, loggedAt = 7\<rparr>]"
proof
  let ?hit = "post_chat sample_score no_faults 7 sample_store
      \<lparr>chat_query = Some ''parking'', chat_tags = None\<rparr>"
  let ?miss = "post_chat sample_score no_faults 7 sample_store
      \<lparr>chat_query = Some ''zzz'', chat_tags = Some [''nothing'']\<rparr>"
  have l: "query_logs sample_store = []" by (simp add: sample_store_def)
  have m: "map (\<lambda>e. (log_id e, query e, score e, loggedAt e)) (query_logs (snd ?miss)) =
      [(4, ''zzz'', None, 7)]"
    "map matchedBy (query_logs (snd ?miss)) = [NoTier]"
    by code_simp+
  from log_entry_none_iff_no_match [of sample_score no_faults 7 sample_store
      "\<lparr>chat_query = Some ''zzz'', chat_tags = Some [''nothing'']\<rparr>"]
  obtain new where n: "query_logs (snd ?miss) = query_logs sample_store @ new"
    and i: "\<forall>e\<in>set new. (matchedBy e = NoTier) = (matchedDocId e = None)"
    by (elim exE conjE)
  from n m l obtain e where e: "new = [e]" "matchedBy e = NoTier"
      "log_id e = 4" "query e = ''zzz''" "score e = None" "loggedAt e = 7"
    by (cases new) auto
  with i have "matchedDocId e = None" by simp
  with e n l show "query_logs (snd ?miss) =
     [\<lparr>log_id = 4, query = ''zzz'', matchedDocId = None, score = None,
       matchedBy = NoTier, loggedAt = 7\<rparr>]"
    by simp
  show "query_logs (snd ?hit) =
     [\<lparr>log_id = 4, query = ''parking'', matchedDocId = Some 1, score = Some 8,
       matchedBy = Text, loggedAt = 7\<rparr>]"
    by code_simp
qed

text \<open>
  C5. The regex tier treats the query as a literal string. \<^verbatim>\<open>regexFallback\<close> escapes
  every metacharacter of the query, so the expression it builds matches exactly the
  texts that contain the query as a contiguous substring, letter case ignored: the tier
  returns the first document of the store whose question or answer contains the query
  in that sense (or the rejection of the find). In particular \<^verbatim>\<open>+\<close> in \<^verbatim>\<open>C++\<close> is
  no quantifier.
\<close>

theorem regexFallback_literal_substring:
  "regexFallback F db q =
     (case F RegexFind of
        Some e \<Rightarrow> Inl e
      | None \<Rightarrow>
          Inr (map lean (take 1 (filter
                 (\<lambda>d. contains_ignoring_case q (question d) \<or>
                      contains_ignoring_case q (answer d))
                 (know_base db)))))"
  by (rule regexFallback_eq)

text \<open>
  The query \<^verbatim>\<open>c++\<close> on the sample store: the document that says \<^verbatim>\<open>C++\<close> is found,
  the earlier one that only says \<^verbatim>\<open>C\<close> is not.
\<close>

theorem regexFallback_literal_substring_witness:
  "regexFallback no_faults sample_store ''c++'' = Inr [lean courses_doc]"
  unfolding regexFallback_literal_substring [of no_faults sample_store "''c++''"]
  by code_simp

text \<open>
  C6. \<^verbatim>\<open>POST /kb\<close> answers status 400 when the question or the answer is missing or
  empty, and creates nothing. Otherwise, the create call not rejecting, it answers
  status 201 with the created record, which is appended to the knowledge base with
  every supplied tag lowercased (no tags when none are supplied) and the source
  defaulting to \<^verbatim>\<open>user\<close>.
\<close>

theorem post_kb_validates_and_lowercases:
  "(kb_question req = None \<or> kb_question req = Some [] \<or>
    kb_answer req = None \<or> kb_answer req = Some [] \<longrightarrow>
      post_kb F now db req =
        (\<lparr>status = 400, body = ErrorBody ''question & answer required''\<rparr>, db)) \<and>
   (kb_question req = Some q \<and> q \<noteq> [] \<and> kb_answer req = Some a \<and> a \<noteq> [] \<and>
    F KbCreate = None \<longrightarrow>
      (let doc = \<lparr>kb_id = next_oid db, question = q, answer = a,
                    tags = map toLowerCase (or_default [] (kb_tags req)),
                    source = or_default ''user'' (kb_source req), createdAt = now\<rparr>
       in post_kb F now db req =
            (\<lparr>status = 201, body = DocBody doc\<rparr>,
             db\<lparr>know_base := know_base db @ [doc], next_oid := Suc (next_oid db)\<rparr>)))"
  by (auto simp: post_kb_def falsy_def KB_create_def Let_def or_default_def)


text \<open>A missing question, an empty answer, and a record with tags \<^verbatim>\<open>WiFi\<close>, \<^verbatim>\<open>Network\<close>.\<close>

theorem post_kb_validates_and_lowercases_witness:
  "post_kb no_faults 50 sample_store
     \<lparr>kb_question = None, kb_answer = Some ''Yes'', kb_tags = None, kb_source = None\<rparr> =
     (\<lparr>status = 400, body = ErrorBody ''question & answer required''\<rparr>, sample_store) \<and>
   post_kb no_faults 50 sample_store
     \<lparr>kb_question = Some ''Is there wifi?'', kb_answer = Some [], kb_tags = Some [''WiFi''],
       kb_source = None\<rparr> =
     (\<lparr>status = 400, body = ErrorBody ''question & answer required''\<rparr>, sample_store) \<and>
   post_kb no_faults 50 sample_store
     \<lparr>kb_question = Some ''Is there wifi?'', kb_answer = Some ''Yes, network Guest'',
       kb_tags = Some [''WiFi'', ''Network''], kb_source = None\<rparr> =
     (\<lparr>status = 201,
        body = DocBody \<lparr>kb_id = 4, question = ''Is there wifi?'',
                 answer = ''Yes, network Guest'', tags = [''wifi'', ''network''],
                 source = ''user'', createdAt = 50\<rparr>\<rparr>,
      sample_store\<lparr>know_base := know_base sample_store @
          [\<lparr>kb_id = 4, question = ''Is there wifi?'', answer = ''Yes, network Guest'',
            tags = [''wifi'', ''network''], source = ''user'', createdAt = 50\<rparr>],
        next_oid := 5\<rparr>)"
proof (intro conjI)
  let ?r1 = "\<lparr>kb_question = None, kb_answer = Some ''Yes'', kb_tags = None, kb_source = None\<rparr>"
  let ?r2 = "\<lparr>kb_question = Some ''Is there wifi?'', kb_answer = Some [],
       kb_tags = Some [''WiFi''], kb_source = None\<rparr>"
  let ?r3 = "\<lparr>kb_question = Some ''Is there wifi?'', kb_answer = Some ''Yes, network Guest'',
       kb_tags = Some [''WiFi'', ''Network''], kb_source = None\<rparr>"
  from post_kb_validates_and_lowercases
         [where req = ?r1 and F = no_faults and now = 50 and db = sample_store and q = "[]"
            and a = "[]", THEN conjunct1]
  show "post_kb no_faults 50 sample_store ?r1 =
     (\<lparr>status = 400, body = ErrorBody ''question & answer required''\<rparr>, sample_store)"
    by simp
  from post_kb_validates_and_lowercases
         [where req = ?r2 and F = no_faults and now = 50 and db = sample_store and q = "[]"
            and a = "[]", THEN conjunct1]
  show "post_kb no_faults 50 sample_store ?r2 =
     (\<lparr>status = 400, body = ErrorBody ''question & answer required''\<rparr>, sample_store)"
    by simp
  have l: "map toLowerCase [''WiFi'', ''Network''] = [''wifi'', ''network'']"
    by code_simp
  from post_kb_validates_and_lowercases
         [where req = ?r3 and F = no_faults and now = 50 and db = sample_store
            and q = "''Is there wifi?''" and a = "''Yes, network Guest''", THEN conjunct2] l
  show "post_kb no_faults 50 sample_store ?r3 =
     (\<lparr>status = 201,
        body = DocBody \<lparr>kb_id = 4, question = ''Is there wifi?'',
                 answer = ''Yes, network Guest'', tags = [''wifi'', ''network''],
                 source = ''user'', createdAt = 50\<rparr>\<rparr>,
      sample_store\<lparr>know_base := know_base sample_store @
          [\<lparr>kb_id = 4, question = ''Is there wifi?'', answer = ''Yes, network Guest'',
            tags = [''wifi'', ''network''], source = ''user'', createdAt = 50\<rparr>],
        next_oid := 5\<rparr>)"
    by (simp add: no_faults_def or_default_def Let_def sample_store_def)
qed

text \<open>
  C7. Tag matching ignores letter case by lowercasing on both sides. For a record
  created by \<^verbatim>\<open>POST /kb\<close>: its tags are the supplied tags lowercased; it satisfies
  the filter of \<^verbatim>\<open>tagFilter\<close> for a list of wanted tags exactly when one supplied tag
  and one wanted tag are equal after lowercasing; then, the find not rejecting,
  \<^verbatim>\<open>tagFilter\<close> on the store afterwards returns one stored record that satisfies the
  filter, and returns the created record when no earlier record satisfies it (the find
  is limited to one record, in store order). \<^verbatim>\<open>tagFilter\<close> of the empty list is empty.
\<close>

theorem tags_match_ignoring_case:
  assumes "post_kb F now db req = (\<lparr>status = 201, body = DocBody doc\<rparr>, db')"
  shows "know_base db' = know_base db @ [doc] \<and>
     tags doc = map toLowerCase (or_default [] (kb_tags req)) \<and>
     tags_in (map toLowerCase wanted) doc =
       (\<exists>t\<in>set (or_default [] (kb_tags req)). \<exists>w\<in>set wanted. toLowerCase t = toLowerCase w) \<and>
     (F' TagFind = None \<and> tags_in (map toLowerCase wanted) doc \<longrightarrow>
        (\<exists>h. tagFilter F' db' wanted = Inr [h] \<and> hit_doc h \<in> set (know_base db') \<and>
             tags_in (map toLowerCase wanted) (hit_doc h))) \<and>
     (F' TagFind = None \<and> tags_in (map toLowerCase wanted) doc \<and>
      \<not> list_ex (tags_in (map toLowerCase wanted)) (know_base db) \<longrightarrow>
        tagFilter F' db' wanted = Inr [lean doc]) \<and>
     tagFilter F' db' [] = Inr []"
proof (intro conjI impI)
  note c = post_kb_created [OF assms]
  show "know_base db' = know_base db @ [doc]" by (rule c(1))
  show "tags doc = map toLowerCase (or_default [] (kb_tags req))" by (rule c(2))
  show "tags_in (map toLowerCase wanted) doc =
       (\<exists>t\<in>set (or_default [] (kb_tags req)). \<exists>w\<in>set wanted. toLowerCase t = toLowerCase w)"
    by (auto simp: tags_in_def list_ex_iff c(2))
  show "tagFilter F' db' [] = Inr []" by (simp add: tagFilter_def)
  {
    assume h: "F' TagFind = None \<and> tags_in (map toLowerCase wanted) doc"
    then have f: "F' TagFind = None" and t: "tags_in (map toLowerCase wanted) doc"
      by simp_all
    have d: "doc \<in> set (know_base db')" by (simp add: c(1))
    from f d t show "\<exists>h. tagFilter F' db' wanted = Inr [h] \<and> hit_doc h \<in> set (know_base db') \<and>
             tags_in (map toLowerCase wanted) (hit_doc h)"
      by (rule tagFilter_finds)
  }
  {
    assume h: "F' TagFind = None \<and> tags_in (map toLowerCase wanted) doc \<and>
      \<not> list_ex (tags_in (map toLowerCase wanted)) (know_base db)"
    then have w: "wanted \<noteq> []" by (auto simp: tags_in_def list_ex_iff)
    from h have "filter (tags_in (map toLowerCase wanted)) (know_base db') = [doc]"
      by (auto simp: c(1) list_ex_iff filter_empty_conv)
    with h w show "tagFilter F' db' wanted = Inr [lean doc]"
      by (simp add: tagFilter_def)
  }
qed


text \<open>A record added with tag \<^verbatim>\<open>Parking\<close> is found by the tag \<^verbatim>\<open>parking\<close>.\<close>

theorem tags_match_ignoring_case_witness:
  "tagFilter no_faults
     (snd (post_kb no_faults 50 empty_store
        \<lparr>kb_question = Some ''Where can I park?'', kb_answer = Some ''Lot B'',
          kb_tags = Some [''Parking''], kb_source = None\<rparr>))
     [''parking''] =
     Inr [lean \<lparr>kb_id = 0, question = ''Where can I park?'', answer = ''Lot B'',
                 tags = [''parking''], source = ''user'', createdAt = 50\<rparr>] \<and>
   tagFilter no_faults
     (snd (post_kb no_faults 50 empty_store
        \<lparr>kb_question = Some ''Where can I park?'', kb_answer = Some ''Lot B'',
          kb_tags = Some [''Parking''], kb_source = None\<rparr>))
     [] = Inr []"
proof -
  let ?req = "\<lparr>kb_question = Some ''Where can I park?'', kb_answer = Some ''Lot B'',
          kb_tags = Some [''Parking''], kb_source = None\<rparr>"
  let ?doc = "\<lparr>kb_id = 0, question = ''Where can I park?'', answer = ''Lot B'',
                 tags = [''parking''], source = ''user'', createdAt = 50\<rparr>"
  let ?db = "snd (post_kb no_faults 50 empty_store ?req)"
  have p: "post_kb no_faults 50 empty_store ?req = (\<lparr>status = 201, body = DocBody ?doc\<rparr>, ?db)"
    by code_simp
  have f: "no_faults TagFind = None" by (simp add: no_faults_def)
  have t: "tags_in (map toLowerCase [''parking'']) ?doc" by code_simp
  have n: "\<not> list_ex (tags_in (map toLowerCase [''parking''])) (know_base empty_store)"
    by (simp add: empty_store_def)
  note c = tags_match_ignoring_case [OF p, where wanted = "[''parking'']" and F' = no_faults]
  from c have "no_faults TagFind = None \<and> tags_in (map toLowerCase [''parking'']) ?doc \<and>
      \<not> list_ex (tags_in (map toLowerCase [''parking''])) (know_base empty_store) \<longrightarrow>
        tagFilter no_faults ?db [''parking''] = Inr [lean ?doc]"
    by (elim conjE)
  with f t n have "tagFilter no_faults ?db [''parking''] = Inr [lean ?doc]" by simp
  moreover from c have "tagFilter no_faults ?db [] = Inr []"
    by (elim conjE)
  ultimately show ?thesis by (rule conjI)
qed

text \<open>
  C8. \<^verbatim>\<open>/chat\<close> is deterministic for a fixed knowledge base. Two invocations with the
  same request on stores with the same \<^verbatim>\<open>know_base\<close> (the log, the clock and the
  next identifier may differ, as they do after a first invocation) give the same
  response when the driver behaves the same; and whenever both invocations end with
  status 200 they give the same response, however the driver calls that were not made
  would have behaved.
\<close>

theorem post_chat_deterministic:
  assumes "know_base db' = know_base db"
  shows "fst (post_chat ts F now' db' req) = fst (post_chat ts F now db req) \<and>
         (status (fst (post_chat ts F now db req)) = 200 \<and>
          status (fst (post_chat ts F' now' db' req)) = 200 \<longrightarrow>
          fst (post_chat ts F' now' db' req) = fst (post_chat ts F now db req))"
proof -
  let ?q = "or_default [] (chat_query req)"
  let ?g = "or_default [] (chat_tags req)"
  have fst_outcome: "fst (chat_outcome G n d ?q sel tr sc) =
      (case G LogCreate of
         Some e \<Rightarrow> internal_error e
       | None \<Rightarrow>
          (case sel of
             None \<Rightarrow> ok (ChatMiss fallback_message tr)
           | Some t \<Rightarrow>
             ok (ChatHit (answer (hit_doc t)) (source (hit_doc t)) (tags (hit_doc t)) tr sc)))"
    for G n d sel tr sc
    by (cases "G LogCreate")
      (simp_all add: chat_outcome_logged chat_outcome_rejected del: chat_outcome.simps)
  have fst_chat: "fst (post_chat ts G n d req) =
      (case resolve ts G d ?q ?g of
         Inl e \<Rightarrow> internal_error e
       | Inr (sel, tr, sc) \<Rightarrow> fst (chat_outcome G n d ?q sel tr sc))" for G n d
    by (simp add: post_chat_resolve split: sum.split prod.split)
  have same: "resolve ts G db' ?q ?g = resolve ts G db ?q ?g" for G
    by (rule resolve_same_store [OF assms])
  have a: "fst (post_chat ts F now' db' req) = fst (post_chat ts F now db req)"
    unfolding fst_chat same fst_outcome by (rule refl)
  have ok200: "\<exists>x. resolve ts G d ?q ?g = Inr x \<and> G LogCreate = None"
    if "status (fst (post_chat ts G n d req)) = 200" for G n d
  proof (cases "resolve ts G d ?q ?g")
    case (Inl e)
    with that show ?thesis by (simp add: fst_chat internal_error_def)
  next
    case (Inr x)
    with that show ?thesis
      by (cases x; cases "G LogCreate") (simp_all add: fst_chat fst_outcome internal_error_def)
  qed
  have b: "fst (post_chat ts F' now' db' req) = fst (post_chat ts F now db req)"
    if s: "status (fst (post_chat ts F now db req)) = 200"
          "status (fst (post_chat ts F' now' db' req)) = 200"
  proof -
    from ok200 [OF s(1)] obtain x where x: "resolve ts F db ?q ?g = Inr x" "F LogCreate = None"
      by blast
    from ok200 [OF s(2)] obtain y where y: "resolve ts F' db' ?q ?g = Inr y" "F' LogCreate = None"
      by blast
    from y(1) have "resolve ts F' db ?q ?g = Inr y" by (simp add: same)
    with x(1) have "y = x" by (rule resolve_any_faults)
    with x y show ?thesis
      by (cases x) (simp add: fst_chat fst_outcome)
  qed
  from a b show ?thesis by blast
qed


text \<open>The same request twice in a row on the sample store.\<close>

theorem post_chat_deterministic_witness:
  "fst (post_chat sample_score no_faults 8
          (snd (post_chat sample_score no_faults 7 sample_store
                  \<lparr>chat_query = Some ''c++'', chat_tags = None\<rparr>))
          \<lparr>chat_query = Some ''c++'', chat_tags = None\<rparr>) =
   fst (post_chat sample_score no_faults 7 sample_store
          \<lparr>chat_query = Some ''c++'', chat_tags = None\<rparr>) \<and>
   fst (post_chat sample_score no_faults 7 sample_store
          \<lparr>chat_query = Some ''c++'', chat_tags = None\<rparr>) =
     ok (ChatHit ''We teach C++ and Java'' ''admin'' [''courses''] Regex None)"
proof
  let ?req = "\<lparr>chat_query = Some ''c++'', chat_tags = None\<rparr>"
  have k: "know_base (snd (post_chat sample_score no_faults 7 sample_store ?req)) =
      know_base sample_store"
    by (rule post_chat_know_base)
  from post_chat_deterministic [OF k, of sample_score no_faults 8 ?req 7 no_faults]
  show "fst (post_chat sample_score no_faults 8
          (snd (post_chat sample_score no_faults 7 sample_store ?req)) ?req) =
      fst (post_chat sample_score no_faults 7 sample_store ?req)"
    by (rule conjunct1)
  show "fst (post_chat sample_score no_faults 7 sample_store ?req) =
      ok (ChatHit ''We teach C++ and Java'' ''admin'' [''courses''] Regex None)"
    by code_simp
qed

text \<open>
  C9. \<^verbatim>\<open>GET /analytics/top-queries\<close>, the aggregation not rejecting, answers status
  200 with groups \<^verbatim>\<open>{_id, count}\<close>: one group for each distinct query text of the
  log, its count the number of entries with that text; ordered by count, largest
  first; capped at 10, the limit written in the pipeline. The groups returned are
  the most frequent: a query left out occurs no more often than any query returned.
  (The order among equal counts is the store's; the statement does not depend on it.)
\<close>

theorem top_queries_grouped_sorted_capped:
  assumes "F LogAggregate = None" and "qs = map query (query_logs db)"
  shows "\<exists>groups. get_top_queries F db = (ok (GroupsBody groups), db) \<and>
      length groups = min 10 (card (set qs)) \<and>
      distinct (map g_id groups) \<and>
      (\<forall>g\<in>set groups. g_id g \<in> set qs \<and> g_count g = count_list qs (g_id g)) \<and>
      sorted_wrt (\<lambda>a b. g_count b \<le> g_count a) groups \<and>
      (\<forall>q\<in>set qs. q \<notin> g_id ` set groups \<longrightarrow>
         (\<forall>g\<in>set groups. count_list qs q \<le> g_count g))"
proof -
  from Log_aggregate_groups [where F = F and db = db and qs = qs, OF assms] obtain groups
    where g: "Log_aggregate F db = Inr groups"
      and p: "length groups = min 10 (card (set qs)) \<and>
      distinct (map g_id groups) \<and>
      (\<forall>g\<in>set groups. g_id g \<in> set qs \<and> g_count g = count_list qs (g_id g)) \<and>
      sorted_wrt (\<lambda>a b. g_count b \<le> g_count a) groups \<and>
      (\<forall>q\<in>set qs. q \<notin> g_id ` set groups \<longrightarrow>
         (\<forall>g\<in>set groups. count_list qs q \<le> g_count g))"
    by (elim exE conjE) (rule that, assumption, intro conjI)
  from g have e: "get_top_queries F db = (ok (GroupsBody groups), db)"
    by (simp add: get_top_queries_def)
  show ?thesis by (rule exI [of _ groups]) (rule conjI [OF e p])
qed


text \<open>
  Six logged queries over three texts; and thirteen over twelve texts, of which ten
  groups are returned, the repeated one first.
\<close>

theorem top_queries_grouped_sorted_capped_witness:
  "get_top_queries no_faults
     (store_with_log [''parking'', ''wifi'', ''parking'', ''lunch'', ''parking'', ''wifi'']) =
     (ok (GroupsBody [\<lparr>g_id = ''parking'', g_count = 3\<rparr>, \<lparr>g_id = ''wifi'', g_count = 2\<rparr>,
                      \<lparr>g_id = ''lunch'', g_count = 1\<rparr>]),
      store_with_log [''parking'', ''wifi'', ''parking'', ''lunch'', ''parking'', ''wifi'']) \<and>
   (case body (fst (get_top_queries no_faults
       (store_with_log (map (\<lambda>c. [c]) ''abcdefghijklb'')))) of
      GroupsBody gs \<Rightarrow> length gs = 10 \<and> hd gs = \<lparr>g_id = ''b'', g_count = 2\<rparr>
    | _ \<Rightarrow> False)"
proof
  let ?db = "store_with_log [''parking'', ''wifi'', ''parking'', ''lunch'', ''parking'', ''wifi'']"
  have f: "no_faults LogAggregate = None" by (simp add: no_faults_def)
  have c: "get_top_queries no_faults ?db =
     (ok (GroupsBody [\<lparr>g_id = ''parking'', g_count = 3\<rparr>, \<lparr>g_id = ''wifi'', g_count = 2\<rparr>,
                      \<lparr>g_id = ''lunch'', g_count = 1\<rparr>]), ?db)"
    by code_simp
  from top_queries_grouped_sorted_capped
         [where F = no_faults and db = ?db and qs = "map query (query_logs ?db)", OF f refl]
  obtain groups
    where "get_top_queries no_faults ?db = (ok (GroupsBody groups), ?db)"
    by (elim exE conjE)
  with c show "get_top_queries no_faults ?db =
     (ok (GroupsBody [\<lparr>g_id = ''parking'', g_count = 3\<rparr>, \<lparr>g_id = ''wifi'', g_count = 2\<rparr>,
                      \<lparr>g_id = ''lunch'', g_count = 1\<rparr>]), ?db)"
    by simp
  show "case body (fst (get_top_queries no_faults
       (store_with_log (map (\<lambda>c. [c]) ''abcdefghijklb'')))) of
      GroupsBody gs \<Rightarrow> length gs = 10 \<and> hd gs = \<lparr>g_id = ''b'', g_count = 2\<rparr>
    | _ \<Rightarrow> False"
    by code_simp
qed

text \<open>
  C10. \<^verbatim>\<open>GET /kb/search\<close> runs the same three-tier lookup as \<^verbatim>\<open>POST /chat\<close> and
  never writes to the log. The store after a search is the store before, whatever
  the driver calls do. And the search agrees with a chat on the same store for the
  same query and the search's tag list (the log write of the chat succeeding): both
  end in the same rejection, or the search has no result and the chat misses, or the
  search has one result and the chat replies with that record's answer, source, tags
  and score.
\<close>

theorem kb_search_same_lookup_without_logging:
  "snd (get_kb_search ts F db qp tp) = db \<and>
   (F LogCreate = None \<longrightarrow>
     (case (body (fst (get_kb_search ts F db qp tp)),
            body (fst (post_chat ts F now db
                         \<lparr>chat_query = qp, chat_tags = Some (tag_list tp)\<rparr>))) of
        (ErrorBody e, ErrorBody e') \<Rightarrow> e' = e
      | (SearchBody q tgl [], ChatMiss m tr) \<Rightarrow>
          q = or_default [] qp \<and> tgl = tag_list tp \<and> tr = NoTier
      | (SearchBody q tgl [h], ChatHit a s g tr sc) \<Rightarrow>
          q = or_default [] qp \<and> tgl = tag_list tp \<and> a = answer (hit_doc h) \<and>
          s = source (hit_doc h) \<and> g = tags (hit_doc h) \<and> sc = hit_score h \<and> tr \<noteq> NoTier
      | _ \<Rightarrow> False))"
proof
  let ?q = "or_default [] qp"
  let ?g = "tag_list tp"
  let ?req = "\<lparr>chat_query = qp, chat_tags = Some (tag_list tp)\<rparr>"
  have g: "or_default [] (Some ?g) = ?g"
    by (simp add: or_default_def)
  show "snd (get_kb_search ts F db qp tp) = db"
    by (simp add: get_kb_search_resolve split: sum.split prod.split)
  show "F LogCreate = None \<longrightarrow>
     (case (body (fst (get_kb_search ts F db qp tp)),
            body (fst (post_chat ts F now db ?req))) of
        (ErrorBody e, ErrorBody e') \<Rightarrow> e' = e
      | (SearchBody q tgl [], ChatMiss m tr) \<Rightarrow>
          q = or_default [] qp \<and> tgl = tag_list tp \<and> tr = NoTier
      | (SearchBody q tgl [h], ChatHit a s g tr sc) \<Rightarrow>
          q = or_default [] qp \<and> tgl = tag_list tp \<and> a = answer (hit_doc h) \<and>
          s = source (hit_doc h) \<and> g = tags (hit_doc h) \<and> sc = hit_score h \<and> tr \<noteq> NoTier
      | _ \<Rightarrow> False)"
  proof
    assume l: "F LogCreate = None"
    show "case (body (fst (get_kb_search ts F db qp tp)),
            body (fst (post_chat ts F now db ?req))) of
        (ErrorBody e, ErrorBody e') \<Rightarrow> e' = e
      | (SearchBody q tgl [], ChatMiss m tr) \<Rightarrow>
          q = or_default [] qp \<and> tgl = tag_list tp \<and> tr = NoTier
      | (SearchBody q tgl [h], ChatHit a s g tr sc) \<Rightarrow>
          q = or_default [] qp \<and> tgl = tag_list tp \<and> a = answer (hit_doc h) \<and>
          s = source (hit_doc h) \<and> g = tags (hit_doc h) \<and> sc = hit_score h \<and> tr \<noteq> NoTier
      | _ \<Rightarrow> False"
    proof (cases "resolve ts F db ?q ?g")
      case (Inl e)
      then show ?thesis
        by (simp add: get_kb_search_resolve post_chat_resolve g internal_error_def)
    next
      case (Inr x)
      obtain sel tr sc where x: "x = (sel, tr, sc)" by (cases x)
      from Inr x have i: "(tr = NoTier) = (sel = None)" by (simp add: resolve_tier_iff)
      show ?thesis
      proof (cases sel)
        case None
        with Inr x i l show ?thesis
          by (simp add: get_kb_search_resolve post_chat_resolve g chat_outcome_logged ok_def
              del: chat_outcome.simps)
      next
        case (Some t)
        with Inr x have "sc = hit_score t" by (simp add: resolve_score)
        with Some Inr x i l show ?thesis
          by (simp add: get_kb_search_resolve post_chat_resolve g chat_outcome_logged ok_def
              del: chat_outcome.simps)
      qed
    qed
  qed
qed


text \<open>
  Searches on the sample store: the store is unchanged, the tag list is split, trimmed
  and lowercased, and the chat with the same tags selects the same record.
\<close>

theorem kb_search_same_lookup_without_logging_witness:
  "snd (get_kb_search sample_score no_faults sample_store (Some ''c++'') (Some ''a, Staff ,b'')) =
     sample_store \<and>
   fst (get_kb_search sample_score no_faults sample_store (Some ''c++'') (Some ''a, Staff ,b'')) =
     ok (SearchBody ''c++'' [''a'', ''staff'', ''b''] [lean courses_doc]) \<and>
   fst (get_kb_search sample_score no_faults sample_store None (Some '' Staff '')) =
     ok (SearchBody [] [''staff''] [lean staff_doc]) \<and>
   fst (post_chat sample_score no_faults 7 sample_store
          \<lparr>chat_query = None, chat_tags = Some (tag_list (Some '' Staff ''))\<rparr>) =
     ok (ChatHit (answer staff_doc) (source staff_doc) (tags staff_doc) Tag None)"
proof (intro conjI)
  have f: "no_faults LogCreate = None" by (simp add: no_faults_def)
  from kb_search_same_lookup_without_logging
         [where ts = sample_score and F = no_faults and db = sample_store
            and qp = "Some ''c++''" and tp = "Some ''a, Staff ,b''" and now = 7]
  show "snd (get_kb_search sample_score no_faults sample_store (Some ''c++'')
              (Some ''a, Staff ,b'')) = sample_store"
    by (rule conjunct1)
  show "fst (get_kb_search sample_score no_faults sample_store (Some ''c++'')
              (Some ''a, Staff ,b'')) =
     ok (SearchBody ''c++'' [''a'', ''staff'', ''b''] [lean courses_doc])"
    by code_simp
  show s: "fst (get_kb_search sample_score no_faults sample_store None (Some '' Staff '')) =
     ok (SearchBody [] [''staff''] [lean staff_doc])"
    by code_simp
  have c: "fst (post_chat sample_score no_faults 7 sample_store
          \<lparr>chat_query = None, chat_tags = Some (tag_list (Some '' Staff ''))\<rparr>) =
     ok (ChatHit (answer staff_doc) (source staff_doc) (tags staff_doc) Tag None)"
    by code_simp
  from kb_search_same_lookup_without_logging
         [where ts = sample_score and F = no_faults and db = sample_store
            and qp = None and tp = "Some '' Staff ''" and now = 7, THEN conjunct2, THEN mp, OF f]
    c
  show "fst (post_chat sample_score no_faults 7 sample_store
          \<lparr>chat_query = None, chat_tags = Some (tag_list (Some '' Staff ''))\<rparr>) =
     ok (ChatHit (answer staff_doc) (source staff_doc) (tags staff_doc) Tag None)"
    by simp
qed

end
